theory Spec2Isabelle
  imports Main
begin

section \<open>Python values used by the front end\<close>

text \<open>
  The source text is ASCII (the definition-file format of the simulator), held as the
  list of characters that Python's text-mode file object delivers, that is after
  newline translation: the only line terminator is the line feed.
\<close>

datatype py_error = TypeError | ValueError | IndexError | UnboundLocalError | AttributeError

abbreviation newline :: char where
  "newline \<equiv> CHR 0x0A"

abbreviation backslash :: char where
  "backslash \<equiv> CHR 0x5C"

text \<open>\<^verbatim>\<open>str.isspace\<close>, \<^verbatim>\<open>str.isalpha\<close>, \<^verbatim>\<open>str.isdigit\<close> and \<^verbatim>\<open>str.isalnum\<close> on ASCII
  text: false on the empty string, otherwise true when every character is in the class.\<close>

definition space_char :: "char \<Rightarrow> bool" where
  "space_char c = (let n = (of_char c :: nat) in (9 \<le> n \<and> n \<le> 13) \<or> (28 \<le> n \<and> n \<le> 32))"

definition alpha_char :: "char \<Rightarrow> bool" where
  "alpha_char c = (let n = (of_char c :: nat) in (65 \<le> n \<and> n \<le> 90) \<or> (97 \<le> n \<and> n \<le> 122))"

definition digit_char :: "char \<Rightarrow> bool" where
  "digit_char c = (let n = (of_char c :: nat) in 48 \<le> n \<and> n \<le> 57)"

definition isspace :: "string \<Rightarrow> bool" where
  "isspace s = (s \<noteq> [] \<and> list_all space_char s)"

definition isalpha :: "string \<Rightarrow> bool" where
  "isalpha s = (s \<noteq> [] \<and> list_all alpha_char s)"

definition isdigit :: "string \<Rightarrow> bool" where
  "isdigit s = (s \<noteq> [] \<and> list_all digit_char s)"

definition isalnum :: "string \<Rightarrow> bool" where
  "isalnum s = (s \<noteq> [] \<and> list_all (\<lambda>c. alpha_char c \<or> digit_char c) s)"

text \<open>\<^verbatim>\<open>int(c)\<close> for a one-digit string and \<^verbatim>\<open>str(n)\<close> for a non-negative integer.\<close>

definition int_of_digit :: "string \<Rightarrow> nat" where
  "int_of_digit s = (of_char (hd s) :: nat) - 48"

definition char_of_digit :: "nat \<Rightarrow> char" where
  "char_of_digit d = char_of (48 + d)"

fun str :: "nat \<Rightarrow> string" where
  "str n = (if n < 10 then [char_of_digit n] else str (n div 10) @ [char_of_digit (n mod 10)])"

declare str.simps [simp del]

text \<open>Iterating over a text file yields its lines, each with its line feed (the last
  line has none when the file does not end with one); \<^verbatim>\<open>s.split("\n")\<close> yields the
  pieces between line feeds, without them.\<close>

fun file_lines :: "string \<Rightarrow> string list" where
  "file_lines [] = []"
| "file_lines (c # cs) =
     (if c = newline then [c] # file_lines cs
      else (case file_lines cs of [] \<Rightarrow> [[c]] | l # ls \<Rightarrow> (c # l) # ls))"

fun split_newline :: "string \<Rightarrow> string list" where
  "split_newline [] = [[]]"
| "split_newline (c # cs) =
     (if c = newline then [] # split_newline cs
      else (case split_newline cs of [] \<Rightarrow> [[c]] | l # ls \<Rightarrow> (c # l) # ls))"

section \<open>The name table\<close>

text \<open>\<^verbatim>\<open>MyNames\<close> of the preliminary exercise: the table is the list \<^verbatim>\<open>names_list\<close>, an
  ID is an index into it.\<close>

type_synonym names_list = "string list"

text \<open>\<^verbatim>\<open>list.index\<close>; the source calls it only after the membership test.\<close>

fun index :: "'a list \<Rightarrow> 'a \<Rightarrow> nat" where
  "index [] s = 0"
| "index (x # xs) s = (if x = s then 0 else Suc (index xs s))"

definition MyNames_init :: names_list where
  "MyNames_init = []"

definition lookup :: "names_list \<Rightarrow> string \<Rightarrow> nat \<times> names_list" where
  "lookup names_list name_string =
     (if name_string \<in> set names_list then (index names_list name_string, names_list)
      else (length (names_list @ [name_string]) - 1, names_list @ [name_string]))"

text \<open>\<^verbatim>\<open>get_string\<close> on an integer argument (the only kind of ID the table issues): the
  string and modulo tests of the source pass, a negative ID raises \<^verbatim>\<open>ValueError\<close>, an
  ID past the end gives \<^verbatim>\<open>None\<close>.\<close>

definition get_string :: "names_list \<Rightarrow> int \<Rightarrow> py_error + string option" where
  "get_string names_list name_id =
     (if name_id < 0 then Inl ValueError
      else if name_id \<ge> int (length names_list) then Inr None
      else Inr (Some (names_list ! nat name_id)))"

text \<open>Modelled from the spec: \<^verbatim>\<open>Names.query\<close> (the module \<^verbatim>\<open>names.py\<close> is not among the
  sources): the ID of a string that is present, otherwise the absent sentinel; it never
  inserts. The argument may be \<^verbatim>\<open>None\<close> (the parser passes the spelling of a pin that
  was not written), which is never present.\<close>

definition query :: "names_list \<Rightarrow> string option \<Rightarrow> nat option" where
  "query names_list s =
     (case s of None \<Rightarrow> None
      | Some name_string \<Rightarrow>
          if name_string \<in> set names_list then Some (index names_list name_string) else None)"

text \<open>Modelled from the spec: \<^verbatim>\<open>Names.lookup\<close> on an ordered sequence of strings (also
  in the missing \<^verbatim>\<open>names.py\<close>): the sequence of IDs, each string treated as the
  single-string lookup above treats it, in order.\<close>

fun lookup_list :: "names_list \<Rightarrow> string list \<Rightarrow> nat list \<times> names_list" where
  "lookup_list names_list [] = ([], names_list)"
| "lookup_list names_list (s # ss) =
     (let (i, names_list') = lookup names_list s;
          (is, names_list'') = lookup_list names_list' ss
      in (i # is, names_list''))"

section \<open>The scanner\<close>

datatype symbol_type =
  COMMA | SEMICOLON | EQUALS | KEYWORD | NUMBER | ZERO | NAME | BRACE_LEFT | BRACE_RIGHT
  | PARENTHESIS_LEFT | PARENTHESIS_RIGHT | ARROW | DOT | EOF | INVALID_CHARACTER

text \<open>A symbol returned by the scanner: type, position and string are always set; the ID
  is set for keywords, names and numbers only. (The parser's placeholder \<^verbatim>\<open>Symbol()\<close>,
  whose fields are all \<^verbatim>\<open>None\<close>, is modelled where the parser makes it.) The position is
  the scanner's \<^verbatim>\<open>file_position\<close> when the symbol starts, which is never negative there
  (lemma \<open>comments_file_position\<close>), so it is a natural number.\<close>

record symbol =
  type :: symbol_type
  symbol_id :: "nat option"
  position :: nat
  string :: string

text \<open>The scanner object. \<^verbatim>\<open>file_text\<close> and \<^verbatim>\<open>file_tell\<close> are the open file: its content
  and its read offset (what \<^verbatim>\<open>file.tell()\<close> returns). \<^verbatim>\<open>keyword_ids\<close> holds the fourteen
  IDs \<^verbatim>\<open>CIRCUIT_ID\<close> ... \<^verbatim>\<open>DTYPE_ID\<close> in the order of \<^verbatim>\<open>keywords_list\<close>.\<close>

record scanner =
  file_text :: string
  file_tell :: nat
  line_lengths :: "nat list"
  file_position :: int
  names :: names_list
  keyword_ids :: "nat list"
  current_character :: string
  comment :: bool

definition keywords_list :: "string list" where
  "keywords_list = [''CIRCUIT'', ''DEVICES'', ''CONNECT'', ''MONITOR'', ''END'', ''CLOCK'',
     ''SWITCH'', ''AND'', ''NAND'', ''OR'', ''NOR'', ''XOR'', ''NOT'', ''DTYPE'']"

definition max_error_line_length :: nat where
  "max_error_line_length = 79"

definition CIRCUIT_ID :: "scanner \<Rightarrow> nat" where "CIRCUIT_ID sc = keyword_ids sc ! 0"
definition DEVICES_ID :: "scanner \<Rightarrow> nat" where "DEVICES_ID sc = keyword_ids sc ! 1"
definition CONNECT_ID :: "scanner \<Rightarrow> nat" where "CONNECT_ID sc = keyword_ids sc ! 2"
definition MONITOR_ID :: "scanner \<Rightarrow> nat" where "MONITOR_ID sc = keyword_ids sc ! 3"
definition END_ID :: "scanner \<Rightarrow> nat" where "END_ID sc = keyword_ids sc ! 4"
definition CLOCK_ID :: "scanner \<Rightarrow> nat" where "CLOCK_ID sc = keyword_ids sc ! 5"
definition SWITCH_ID :: "scanner \<Rightarrow> nat" where "SWITCH_ID sc = keyword_ids sc ! 6"
definition AND_ID :: "scanner \<Rightarrow> nat" where "AND_ID sc = keyword_ids sc ! 7"
definition NAND_ID :: "scanner \<Rightarrow> nat" where "NAND_ID sc = keyword_ids sc ! 8"
definition OR_ID :: "scanner \<Rightarrow> nat" where "OR_ID sc = keyword_ids sc ! 9"
definition NOR_ID :: "scanner \<Rightarrow> nat" where "NOR_ID sc = keyword_ids sc ! 10"
definition XOR_ID :: "scanner \<Rightarrow> nat" where "XOR_ID sc = keyword_ids sc ! 11"
definition NOT_ID :: "scanner \<Rightarrow> nat" where "NOT_ID sc = keyword_ids sc ! 12"
definition DTYPE_ID :: "scanner \<Rightarrow> nat" where "DTYPE_ID sc = keyword_ids sc ! 13"

text \<open>\<^verbatim>\<open>file.read(1)\<close>: the next character, or the empty string at the end of the file,
  where the offset stays.\<close>

definition file_read1 :: "scanner \<Rightarrow> string \<times> scanner" where
  "file_read1 sc =
     (if file_tell sc < length (file_text sc)
      then ([file_text sc ! file_tell sc], sc\<lparr>file_tell := file_tell sc + 1\<rparr>)
      else ([], sc))"

text \<open>\<^verbatim>\<open>Scanner.__init__\<close> for a path that is an existing \<^verbatim>\<open>.txt\<close> file with the given
  content, on the given name table.\<close>

definition Scanner_init :: "string \<Rightarrow> names_list \<Rightarrow> scanner" where
  "Scanner_init text names0 =
     (let (ids, names1) = lookup_list names0 keywords_list;
          sc = \<lparr>file_text = text, file_tell = 0,
                line_lengths = map length (file_lines text),
                file_position = 0, names = names1, keyword_ids = ids,
                current_character = [], comment = False\<rparr>;
          (ch, sc') = file_read1 sc
      in sc'\<lparr>current_character := ch\<rparr>)"

definition advance :: "scanner \<Rightarrow> scanner" where
  "advance sc =
     (let (ch, sc') = file_read1 sc
      in sc'\<lparr>current_character := ch, file_position := file_position sc' + 1\<rparr>)"

text \<open>\<^verbatim>\<open>backwards\<close> seeks to \<^verbatim>\<open>tell() - 1\<close> or \<^verbatim>\<open>tell() - 2\<close>. The scanner calls it only
  right after \<^verbatim>\<open>check_comment\<close> has advanced from a backslash that was read from the file,
  where the offset is at least 1, and at least 2 when that advance read a character
  (lemma \<open>backwards_seek_in_file\<close>), so the subtraction on \<open>nat\<close> is the source's.\<close>

definition backwards :: "scanner \<Rightarrow> scanner" where
  "backwards sc =
     advance
       (if current_character sc = []
        then sc\<lparr>file_tell := file_tell sc - 1, file_position := file_position sc - 1\<rparr>
        else sc\<lparr>file_tell := file_tell sc - 2, file_position := file_position sc - 2\<rparr>)"

text \<open>What is left to read, the current character included: every loop of the scanner
  advances while the current character is not the empty string, so this decreases.\<close>

definition remaining :: "scanner \<Rightarrow> nat" where
  "remaining sc =
     (length (file_text sc) - file_tell sc) + (if current_character sc = [] then 0 else 1)"

lemma remaining_advance_le: "remaining (advance sc) \<le> remaining sc"
  by (auto simp add: remaining_def advance_def file_read1_def)

lemma remaining_advance_less:
  "current_character sc \<noteq> [] \<Longrightarrow> remaining (advance sc) < remaining sc"
  by (auto simp add: remaining_def advance_def file_read1_def)

lemma isspace_nonempty: "isspace s \<Longrightarrow> s \<noteq> []"
  by (simp add: isspace_def)

lemma isalnum_nonempty: "isalnum s \<Longrightarrow> s \<noteq> []"
  by (simp add: isalnum_def)

lemma isdigit_nonempty: "isdigit s \<Longrightarrow> s \<noteq> []"
  by (simp add: isdigit_def)

lemma isalpha_nonempty: "isalpha s \<Longrightarrow> s \<noteq> []"
  by (simp add: isalpha_def)

function skip_spaces :: "scanner \<Rightarrow> scanner" where
  "skip_spaces sc =
     (if isspace (current_character sc) then skip_spaces (advance sc) else sc)"
  by pat_completeness auto
termination
  by (relation "measure remaining") (auto simp: remaining_advance_less isspace_nonempty)

declare skip_spaces.simps [simp del]

definition check_comment :: "scanner \<Rightarrow> bool \<times> scanner" where
  "check_comment sc =
     (let sc' = advance sc
      in if current_character sc' = [backslash] then (\<not> comment sc', sc')
         else (comment sc', sc'))"

text \<open>The \<^verbatim>\<open>while self.comment: ... else: self.skip_spaces()\<close> loop of \<^verbatim>\<open>get_symbol\<close>:
  \<^verbatim>\<open>break\<close> (end of file inside a comment) leaves without the \<^verbatim>\<open>else\<close> clause.\<close>

function comment_loop :: "scanner \<Rightarrow> scanner" where
  "comment_loop sc =
     (if comment sc then
        (if current_character sc = [] then sc
         else comment_loop
           (advance
             (if current_character sc = [backslash]
              then (let (b, sc') = check_comment sc in sc'\<lparr>comment := b\<rparr>)
              else sc)))
      else skip_spaces sc)"
  by pat_completeness auto
termination
proof (relation "measure remaining")
  show "wf (measure remaining)" by simp
next
  fix sc :: scanner
  assume c: "current_character sc \<noteq> []"
  have a: "remaining (advance sc) < remaining sc"
    using c by (rule remaining_advance_less)
  have "remaining (advance ((advance sc)\<lparr>comment := b\<rparr>)) \<le> remaining (advance sc)" for b
    by (auto simp add: remaining_def advance_def file_read1_def)
  with a have b: "remaining (advance ((advance sc)\<lparr>comment := b\<rparr>)) < remaining sc" for b
    using le_less_trans by blast
  have "remaining (advance (advance sc)) < remaining sc"
    using remaining_advance_le [of "advance sc"] a by simp
  with a b show "(advance
          (if current_character sc = [backslash]
           then let (b, sc') = check_comment sc in sc'\<lparr>comment := b\<rparr>
           else sc), sc) \<in> measure remaining"
    by (simp add: check_comment_def Let_def)
qed

declare comment_loop.simps [simp del]

function get_name_loop :: "string \<Rightarrow> scanner \<Rightarrow> string \<times> scanner" where
  "get_name_loop name sc =
     (if isalnum (current_character sc)
      then get_name_loop (name @ current_character sc) (advance sc)
      else (name, sc))"
  by pat_completeness auto
termination
  by (relation "measure (\<lambda>(name, sc). remaining sc)")
     (auto simp: remaining_advance_less isalnum_nonempty)

declare get_name_loop.simps [simp del]

definition get_name :: "scanner \<Rightarrow> string \<times> scanner" where
  "get_name sc = get_name_loop (current_character sc) (advance sc)"

function get_number_loop :: "nat \<Rightarrow> scanner \<Rightarrow> nat \<times> scanner" where
  "get_number_loop number sc =
     (if isdigit (current_character sc)
      then get_number_loop (number * 10 + int_of_digit (current_character sc)) (advance sc)
      else (number, sc))"
  by pat_completeness auto
termination
  by (relation "measure (\<lambda>(number, sc). remaining sc)")
     (auto simp: remaining_advance_less isdigit_nonempty)

declare get_number_loop.simps [simp del]

definition get_number :: "scanner \<Rightarrow> nat \<times> scanner" where
  "get_number sc = get_number_loop (int_of_digit (current_character sc)) (advance sc)"


section \<open>Error display\<close>

text \<open>\<^verbatim>\<open>file.read()\<close>: the rest of the file; the offset moves to the end.\<close>

definition file_read :: "scanner \<Rightarrow> string \<times> scanner" where
  "file_read sc =
     (drop (file_tell sc) (file_text sc),
      sc\<lparr>file_tell := max (file_tell sc) (length (file_text sc))\<rparr>)"

text \<open>Python's \<^verbatim>\<open>max\<close> of a list; \<^verbatim>\<open>print_error\<close> applies it to a list that holds at
  least the offset of the first line (lemma \<open>print_error_max_nonempty\<close>).\<close>

definition py_max :: "int list \<Rightarrow> int" where
  "py_max xs = fold max xs (hd xs)"

text \<open>\<^verbatim>\<open>print_error\<close>: the message, what it prints, and the scanner with the file offset
  put back. The line text is cut around the marker when it is longer than
  \<^verbatim>\<open>max_error_line_length\<close>.\<close>

definition shorten :: "string \<Rightarrow> int \<Rightarrow> string \<times> int" where
  "shorten line_text pos =
     (if length line_text > max_error_line_length then
        (let (line_text1, pos1) =
               (if pos > (int max_error_line_length + 1) div 2 - 5
                then (''[...]'' @
                        drop (nat (pos - (int max_error_line_length + 1) div 2 + 6))
                          line_text,
                      (int max_error_line_length - 1) div 2)
                else (line_text, pos));
             line_text2 =
               (if int (length line_text1) - pos1 > (int max_error_line_length + 1) div 2
                then take (nat (pos1 + int max_error_line_length div 2 - 4)) line_text1
                       @ ''[...]''
                else line_text1)
         in (line_text2, pos1))
      else (line_text, pos))"

definition print_error :: "scanner \<Rightarrow> symbol \<Rightarrow> string \<Rightarrow> string \<times> string list \<times> scanner" where
  "print_error sc symbol suggestion =
     (let current_position = file_tell sc;
          sol_pos = map (\<lambda>i. int (sum_list (take i (line_lengths sc))))
                      [0..<length (line_lengths sc)];
          sol_pos_rel_marker = map (\<lambda>s. s - int (position symbol)) sol_pos;
          (line_text, pos, line, sc1) =
            (if length sol_pos_rel_marker = 0 then ([], 0, 1, sc)
             else
               (let pos = - py_max (filter (\<lambda>i. i \<le> 0) sol_pos_rel_marker);
                    line = index sol_pos_rel_marker (- pos) + 1;
                    (text, sc') = file_read (sc\<lparr>file_tell := 0\<rparr>)
                in (split_newline text ! (line - 1), pos, line, sc')));
          (line_text', pos') = shorten line_text pos;
          output = ''Error on line '' @ str line @ [CHR '':'', newline, newline]
                     @ line_text' @ [newline]
                     @ replicate (nat pos') CHR '' '' @ [CHR ''^'', newline, newline]
                     @ suggestion
      in (output, [[newline, newline] @ output], sc1\<lparr>file_tell := current_position\<rparr>))"

section \<open>Reading symbols\<close>

text \<open>The comment block of \<^verbatim>\<open>get_symbol\<close> (\<^verbatim>\<open>if self.current_character == "\\": ...\<close>).\<close>

definition comments :: "scanner \<Rightarrow> scanner" where
  "comments sc =
     (if current_character sc = [backslash] then
        (let (b, sc1) = check_comment sc;
             sc2 = sc1\<lparr>comment := b\<rparr>;
             sc3 = (if \<not> comment sc2 then backwards sc2 else sc2)
         in comment_loop sc3)
      else sc)"

definition single :: "symbol_type \<Rightarrow> nat \<Rightarrow> scanner \<Rightarrow> symbol \<times> scanner" where
  "single t pos sc =
     (\<lparr>type = t, symbol_id = None, position = pos, string = current_character sc\<rparr>,
      advance sc)"

text \<open>The dispatch of \<^verbatim>\<open>get_symbol\<close> on the current character, for a symbol that starts
  at \<open>pos\<close>.\<close>

definition dispatch :: "nat \<Rightarrow> scanner \<Rightarrow> symbol \<times> scanner" where
  "dispatch pos sc =
     (let c = current_character sc in
      if isalpha c then
        (let (name_string, sc1) = get_name sc;
             t = (if name_string \<in> set keywords_list then KEYWORD else NAME);
             (ids, names') = lookup_list (names sc1) [name_string]
         in (\<lparr>type = t, symbol_id = Some (hd ids), position = pos, string = name_string\<rparr>,
             sc1\<lparr>names := names'\<rparr>))
      else if isdigit c then
        (if int_of_digit c = 0
         then (\<lparr>type = ZERO, symbol_id = Some 0, position = pos, string = str 0\<rparr>,
               advance sc)
         else (let (n, sc1) = get_number sc
               in (\<lparr>type = NUMBER, symbol_id = Some n, position = pos, string = str n\<rparr>,
                   sc1)))
      else if c = '','' then single COMMA pos sc
      else if c = '';'' then single SEMICOLON pos sc
      else if c = ''='' then single EQUALS pos sc
      else if c = ''{'' then single BRACE_LEFT pos sc
      else if c = ''}'' then single BRACE_RIGHT pos sc
      else if c = ''('' then single PARENTHESIS_LEFT pos sc
      else if c = '')'' then single PARENTHESIS_RIGHT pos sc
      else if c = ''>'' then single ARROW pos sc
      else if c = ''.'' then single DOT pos sc
      else if c = [] then single EOF pos sc
      else single INVALID_CHARACTER pos sc)"

text \<open>\<^verbatim>\<open>get_symbol\<close>: the symbol, what was printed (the open-comment message at the end
  of the file, or nothing), and the scanner.\<close>

definition get_symbol :: "scanner \<Rightarrow> symbol \<times> string list \<times> scanner" where
  "get_symbol sc =
     (let sc1 = comments (skip_spaces sc);
          (symbol, sc2) = dispatch (nat (file_position sc1)) sc1
      in if type symbol = EOF \<and> comment sc2
         then (let (output, printed, sc3) =
                     print_error sc2 symbol
                       (''File ended with open comment. Expected '' @
                          [CHR 0x27, backslash, backslash, CHR 0x27])
               in (symbol, printed, sc3))
         else (symbol, [], sc2))"


section \<open>Properties of the name table\<close>

lemma nth_index: "s \<in> set xs \<Longrightarrow> xs ! index xs s = s"
  by (induction xs) auto

lemma index_less: "s \<in> set xs \<Longrightarrow> index xs s < length xs"
  by (induction xs) auto

lemma index_nth: "distinct xs \<Longrightarrow> i < length xs \<Longrightarrow> index xs (xs ! i) = i"
proof (induction xs arbitrary: i)
  case Nil
  then show ?case by simp
next
  case (Cons x xs)
  show ?case
  proof (cases i)
    case 0
    then show ?thesis by simp
  next
    case (Suc j)
    with Cons.prems have "j < length xs" and "xs ! j \<in> set xs" and "x \<notin> set xs"
      by auto
    with Cons Suc show ?thesis by auto
  qed
qed

lemma lookup_distinct: "distinct t \<Longrightarrow> distinct (snd (lookup t s))"
  by (simp add: lookup_def)

lemma lookup_list_distinct: "distinct t \<Longrightarrow> distinct (snd (lookup_list t ss))"
proof (induction ss arbitrary: t)
  case Nil
  then show ?case by simp
next
  case (Cons s ss)
  from Cons.prems have "distinct (snd (lookup t s))" by (rule lookup_distinct)
  from Cons.IH [OF this] show ?case
    by (simp add: split_beta Let_def)
qed

lemma lookup_get_string:
  "lookup t s = (i, t') \<Longrightarrow> get_string t' (int i) = Inr (Some s)"
proof (cases "s \<in> set t")
  case True
  with index_less [of s t] nth_index [of s t] show "lookup t s = (i, t') \<Longrightarrow> ?thesis"
    by (auto simp: lookup_def get_string_def)
next
  case False
  then show "lookup t s = (i, t') \<Longrightarrow> ?thesis"
    by (auto simp: lookup_def get_string_def)
qed

text \<open>
  Claim C8 (names round trip). Let \<open>t\<close> be a name table reached from the empty table by
  any sequence of lookups. For every string \<open>s\<close>, looking \<open>s\<close> up and asking the resulting
  table for the string of the returned ID yields \<open>s\<close>; and for every ID \<open>i\<close> the table has
  issued (every index below its length), the table returns a string for \<open>i\<close> whose query
  is \<open>i\<close> again.
\<close>

theorem names_round_trip:
  "t = snd (lookup_list MyNames_init ss) \<Longrightarrow>
     (\<forall>s. get_string (snd (lookup t s)) (int (fst (lookup t s))) = Inr (Some s)) \<and>
     (\<forall>i < length t. \<exists>s. get_string t (int i) = Inr (Some s) \<and> query t (Some s) = Some i)"
proof (intro conjI allI impI)
  fix s
  assume "t = snd (lookup_list MyNames_init ss)"
  show "get_string (snd (lookup t s)) (int (fst (lookup t s))) = Inr (Some s)"
    by (rule lookup_get_string) simp
next
  fix i
  assume t: "t = snd (lookup_list MyNames_init ss)" and i: "i < length t"
  have "distinct t"
    unfolding t by (rule lookup_list_distinct) (simp add: MyNames_init_def)
  with i have "index t (t ! i) = i" by (simp add: index_nth)
  with i show "\<exists>s. get_string t (int i) = Inr (Some s) \<and> query t (Some s) = Some i"
    by (simp add: get_string_def query_def)
qed

theorem names_round_trip_witness:
  "(\<forall>s. get_string (snd (lookup [''Alice'', ''Bob''] s))
          (int (fst (lookup [''Alice'', ''Bob''] s))) = Inr (Some s)) \<and>
   get_string [''Alice'', ''Bob''] 1 = Inr (Some ''Bob'') \<and>
   query [''Alice'', ''Bob''] (Some ''Bob'') = Some 1"
proof -
  have t: "[''Alice'', ''Bob''] = snd (lookup_list MyNames_init [''Alice'', ''Bob'', ''Alice''])"
    by (simp add: MyNames_init_def lookup_def)
  from names_round_trip [OF t] show ?thesis
    by (simp add: get_string_def query_def)
qed


section \<open>Properties of the error display\<close>

text \<open>The first \<open>n\<close> symbols that successive calls of \<^verbatim>\<open>get_symbol\<close> return.\<close>

fun symbol_stream :: "nat \<Rightarrow> scanner \<Rightarrow> symbol list" where
  "symbol_stream 0 sc = []"
| "symbol_stream (Suc n) sc =
     (let (symbol, printed, sc') = get_symbol sc in symbol # symbol_stream n sc')"

text \<open>A symbol lies on a line of the file: the file is \<open>before @ line @ rest\<close>, where
  \<open>before\<close> is the lines above (empty, or ending with a line feed), \<open>line\<close> is the text of
  the line (no line feed in it), \<open>rest\<close> is empty or starts with the line feed that ends
  the line, and the symbol's position is \<open>col\<close> characters into the line, inside the
  file. The scanner's \<open>line_lengths\<close> are those of its file, as
  \<^verbatim>\<open>Scanner.__init__\<close> sets them.\<close>

definition on_line :: "scanner \<Rightarrow> symbol \<Rightarrow> string \<Rightarrow> string \<Rightarrow> string \<Rightarrow> nat \<Rightarrow> bool" where
  "on_line sc symbol before line rest col =
     (line_lengths sc = map length (file_lines (file_text sc)) \<and>
      file_text sc = before @ line @ rest \<and>
      (before = [] \<or> last before = newline) \<and>
      newline \<notin> set line \<and>
      (rest = [] \<or> hd rest = newline) \<and>
      position symbol = length before + col \<and>
      col \<le> length line \<and>
      position symbol < length (file_text sc))"

text \<open>The message layout: the header with the line number, a blank line, the line shown,
  the caret under column \<open>caret\<close>, a blank line, the suggestion.\<close>

definition error_text :: "nat \<Rightarrow> string \<Rightarrow> nat \<Rightarrow> string \<Rightarrow> string" where
  "error_text line_number shown caret suggestion =
     ''Error on line '' @ str line_number @ [CHR '':'', newline, newline] @ shown @ [newline]
       @ replicate caret CHR '' '' @ [CHR ''^'', newline, newline] @ suggestion"


lemma file_lines_line:
  "newline \<notin> set l \<Longrightarrow> file_lines (l @ newline # r) = (l @ [newline]) # file_lines r"
  by (induction l) auto

lemma file_lines_last: "newline \<notin> set l \<Longrightarrow> l \<noteq> [] \<Longrightarrow> file_lines l = [l]"
proof (induction l)
  case Nil
  then show ?case by simp
next
  case (Cons c l)
  then show ?case by (cases "l = []") auto
qed

lemma file_lines_empty: "file_lines t = [] \<longleftrightarrow> t = []"
  by (cases t) (auto split: list.splits)

lemma file_lines_append:
  "b = [] \<or> last b = newline \<Longrightarrow> file_lines (b @ x) = file_lines b @ file_lines x"
proof (induction b)
  case Nil
  then show ?case by simp
next
  case (Cons c b)
  show ?case
  proof (cases "c = newline")
    case True
    from Cons.prems have "b = [] \<or> last b = newline" by (auto split: if_splits)
    with Cons.IH True show ?thesis by simp
  next
    case False
    with Cons.prems have b: "b \<noteq> []" "last b = newline" by (auto split: if_splits)
    then obtain l ls where l: "file_lines b = l # ls"
      using file_lines_empty [of b] by (cases "file_lines b") auto
    from Cons.IH b have "file_lines (b @ x) = file_lines b @ file_lines x" by simp
    with False l show ?thesis by simp
  qed
qed

lemma file_lines_count:
  "b = [] \<or> last b = newline \<Longrightarrow> length (file_lines b) = count_list b newline"
proof (induction b)
  case Nil
  then show ?case by simp
next
  case (Cons c b)
  show ?case
  proof (cases "c = newline")
    case True
    from Cons.prems have "b = [] \<or> last b = newline" by (auto split: if_splits)
    with Cons.IH True show ?thesis by simp
  next
    case False
    with Cons.prems have b: "b \<noteq> []" "last b = newline" by (auto split: if_splits)
    then obtain l ls where l: "file_lines b = l # ls"
      using file_lines_empty [of b] by (cases "file_lines b") auto
    from Cons.IH b have "length (file_lines b) = count_list b newline" by simp
    with False l show ?thesis by simp
  qed
qed

lemma file_lines_concat: "concat (file_lines t) = t"
  by (induction t) (auto split: list.splits)

lemma file_lines_sum: "sum_list (map length (file_lines t)) = length t"
proof -
  have "length (concat (file_lines t)) = length t" by (simp add: file_lines_concat)
  then show ?thesis by (simp add: length_concat)
qed

lemma file_lines_nonempty: "l \<in> set (file_lines t) \<Longrightarrow> l \<noteq> []"
  by (induction t arbitrary: l) (auto split: if_splits list.splits)

lemma split_newline_nonempty: "split_newline t \<noteq> []"
  by (cases t) (auto split: list.splits)

lemma split_newline_line:
  "newline \<notin> set l \<Longrightarrow> split_newline (l @ newline # r) = l # split_newline r"
  by (induction l) auto

lemma split_newline_last: "newline \<notin> set l \<Longrightarrow> split_newline l = [l]"
  by (induction l) auto

lemma split_newline_nth:
  "b = [] \<or> last b = newline \<Longrightarrow>
   split_newline (b @ x) ! count_list b newline = hd (split_newline x)"
proof (induction b)
  case Nil
  then show ?case by (simp add: hd_conv_nth split_newline_nonempty)
next
  case (Cons c b)
  show ?case
  proof (cases "c = newline")
    case True
    from Cons.prems have "b = [] \<or> last b = newline" by (auto split: if_splits)
    with Cons.IH True show ?thesis by simp
  next
    case False
    with Cons.prems have b: "b \<noteq> []" "last b = newline" by (auto split: if_splits)
    then have "newline \<in> set b" using last_in_set by metis
    then have pos: "0 < count_list b newline"
      using count_list_0_iff [of b newline] by simp
    obtain l ls where l: "split_newline (b @ x) = l # ls"
      using split_newline_nonempty [of "b @ x"] by (cases "split_newline (b @ x)") auto
    from Cons.IH b have "split_newline (b @ x) ! count_list b newline = hd (split_newline x)"
      by simp
    with False l pos show ?thesis by (cases "count_list b newline") auto
  qed
qed

lemma index_append:
  "index (xs @ ys) v = (if v \<in> set xs then index xs v else length xs + index ys v)"
  by (induction xs) auto

lemma index_map_upt:
  "k < n \<Longrightarrow> \<forall>i<k. f i \<noteq> f k \<Longrightarrow> index (map f [0..<n]) (f k) = k"
proof (induction n)
  case 0
  then show ?case by simp
next
  case (Suc n)
  show ?case
  proof (cases "k < n")
    case True
    then have "f k \<in> set (map f [0..<n])" by auto
    with Suc True show ?thesis by (simp add: index_append)
  next
    case False
    with Suc.prems have k: "k = n" by simp
    with Suc.prems have "f n \<notin> set (map f [0..<n])" by auto
    with k show ?thesis by (simp add: index_append)
  qed
qed

lemma py_max_Max: "xs \<noteq> [] \<Longrightarrow> py_max xs = Max (set xs)"
proof (cases xs)
  case Nil
  then show "xs \<noteq> [] \<Longrightarrow> ?thesis" by simp
next
  case (Cons x ys)
  have "Max (set (x # ys)) = fold max ys x" by (rule Max.set_eq_fold)
  with Cons show ?thesis by (simp add: py_max_def)
qed

lemma py_max_filter_upt:
  assumes k: "k < n" and le: "f k \<le> 0"
    and below: "\<forall>i<n. i \<le> k \<longrightarrow> f i \<le> f k"
    and above: "\<forall>i<n. k < i \<longrightarrow> 0 < f i"
  shows "py_max (filter (\<lambda>x. x \<le> 0) (map f [0..<n])) = f k"
proof -
  let ?xs = "filter (\<lambda>x. x \<le> (0::int)) (map f [0..<n])"
  from k le have mem: "f k \<in> set ?xs" by auto
  have ne: "?xs \<noteq> []"
  proof
    assume "?xs = []"
    with mem show False by (metis empty_iff empty_set)
  qed
  have "Max (set ?xs) = f k"
  proof (rule Max_eqI)
    show "finite (set ?xs)" by simp
    show "f k \<in> set ?xs" by (rule mem)
    fix y
    assume "y \<in> set ?xs"
    then obtain i where i: "i < n" "y = f i" "f i \<le> 0" by auto
    with above have "i \<le> k" by (metis not_less)
    with below i show "y \<le> f k" by simp
  qed
  with ne show ?thesis by (simp add: py_max_Max)
qed

lemma sum_take_mono: "i \<le> j \<Longrightarrow> sum_list (take i (lens :: nat list)) \<le> sum_list (take j lens)"
proof -
  assume "i \<le> j"
  then have "take j lens = take i lens @ take (j - i) (drop i lens)"
    by (metis le_add_diff_inverse take_add)
  then show ?thesis by simp
qed

lemma sum_take_strict:
  assumes pos: "\<forall>l\<in>set lens. 0 < (l::nat)" and ij: "i < j" and j: "j \<le> length lens"
  shows "sum_list (take i lens) < sum_list (take j lens)"
proof -
  from ij j have i: "i < length lens" by simp
  then have "take (Suc i) lens = take i lens @ [lens ! i]" by (rule take_Suc_conv_app_nth)
  moreover from i pos have "0 < lens ! i" by simp
  ultimately have "sum_list (take i lens) < sum_list (take (Suc i) lens)" by simp
  moreover from ij have "sum_list (take (Suc i) lens) \<le> sum_list (take j lens)"
    by (intro sum_take_mono) simp
  ultimately show ?thesis by simp
qed

text \<open>The line and the column that \<^verbatim>\<open>print_error\<close> computes, for a position inside line \<open>k\<close>.\<close>

lemma locate_line:
  fixes lens :: "nat list" and p :: nat
  assumes pos: "\<forall>l\<in>set lens. 0 < l" and k: "k < length lens"
    and lo: "sum_list (take k lens) \<le> p" and hi: "p < sum_list (take (Suc k) lens)"
  defines "rel \<equiv> map (\<lambda>s. s - int p) (map (\<lambda>i. int (sum_list (take i lens))) [0..<length lens])"
  shows "- py_max (filter (\<lambda>i. i \<le> 0) rel) = int p - int (sum_list (take k lens))"
    and "index rel (py_max (filter (\<lambda>i. i \<le> 0) rel)) = k"
proof -
  let ?f = "\<lambda>i. int (sum_list (take i lens)) - int p"
  have rel: "rel = map ?f [0..<length lens]" by (simp add: rel_def)
  have below: "\<forall>i<length lens. i \<le> k \<longrightarrow> ?f i \<le> ?f k"
    using sum_take_mono [of _ k lens] by simp
  have above: "\<forall>i<length lens. k < i \<longrightarrow> 0 < ?f i"
  proof (intro allI impI)
    fix i assume "i < length lens" "k < i"
    then have "sum_list (take (Suc k) lens) \<le> sum_list (take i lens)"
      by (intro sum_take_mono) simp
    with hi show "0 < ?f i" by simp
  qed
  from lo have le: "?f k \<le> 0" by simp
  have m: "py_max (filter (\<lambda>i. i \<le> 0) rel) = ?f k"
    unfolding rel using k le below above by (rule py_max_filter_upt)
  then show "- py_max (filter (\<lambda>i. i \<le> 0) rel) = int p - int (sum_list (take k lens))"
    by simp
  have "\<forall>i<k. ?f i \<noteq> ?f k"
  proof (intro allI impI)
    fix i assume "i < k"
    with pos k have "sum_list (take i lens) < sum_list (take k lens)"
      by (intro sum_take_strict) simp_all
    then show "?f i \<noteq> ?f k" by simp
  qed
  with k have "index (map ?f [0..<length lens]) (?f k) = k" by (rule index_map_upt)
  with m rel show "index rel (py_max (filter (\<lambda>i. i \<le> 0) rel)) = k" by simp
qed

lemma print_error_located:
  assumes "on_line sc symbol before line rest col"
  shows "print_error sc symbol suggestion =
     (let output = error_text (count_list before newline + 1) (fst (shorten line (int col)))
                     (nat (snd (shorten line (int col)))) suggestion
      in (output, [[newline, newline] @ output], sc))"
proof -
  let ?text = "file_text sc"
  let ?lens = "line_lengths sc"
  let ?k = "count_list before newline"
  let ?p = "position symbol"
  from assms have lens: "?lens = map length (file_lines ?text)"
    and tx: "?text = before @ line @ rest"
    and before: "before = [] \<or> last before = newline"
    and line: "newline \<notin> set line"
    and rest: "rest = [] \<or> hd rest = newline"
    and p: "?p = length before + col" and col: "col \<le> length line"
    and inside: "?p < length ?text"
    unfolding on_line_def by blast+
  have k: "length (file_lines before) = ?k" using before by (rule file_lines_count)
  have fl: "file_lines ?text = file_lines before @ file_lines (line @ rest)"
    unfolding tx using before by (rule file_lines_append)
  obtain this_line more where tl: "file_lines (line @ rest) = this_line # more"
    and len: "col < length this_line"
    and sn: "hd (split_newline (line @ rest)) = line"
  proof (cases rest)
    case Nil
    with inside tx p col have "line \<noteq> []" by auto
    with line Nil have "file_lines (line @ rest) = [line]" by (simp add: file_lines_last)
    moreover from inside tx p Nil have "col < length line" by simp
    moreover from line Nil have "hd (split_newline (line @ rest)) = line"
      by (simp add: split_newline_last)
    ultimately show ?thesis using that by blast
  next
    case (Cons c r)
    with rest have c: "c = newline" by simp
    with line Cons have "file_lines (line @ rest) = (line @ [newline]) # file_lines r"
      by (simp add: file_lines_line)
    moreover from col have "col < length (line @ [newline])" by simp
    moreover from line Cons c have "hd (split_newline (line @ rest)) = line"
      by (simp add: split_newline_line)
    ultimately show ?thesis using that by blast
  qed
  have lens': "?lens = map length (file_lines before) @ length this_line # map length more"
    by (simp add: lens fl tl)
  have klt: "?k < length ?lens" by (simp add: lens' k)
  have ne: "?lens \<noteq> []" using klt by auto
  have s0: "sum_list (take ?k ?lens) = length before"
    by (simp add: lens' k [symmetric] file_lines_sum)
  have s1: "sum_list (take (Suc ?k) ?lens) = length before + length this_line"
    by (simp add: lens' k [symmetric] file_lines_sum)
  have pos: "\<forall>l\<in>set ?lens. 0 < l"
    unfolding lens using file_lines_nonempty by auto
  have lo: "sum_list (take ?k ?lens) \<le> ?p" by (simp add: s0 p)
  have hi: "?p < sum_list (take (Suc ?k) ?lens)" using len by (simp add: s1 p)
  note loc = locate_line [OF pos klt lo hi]
  let ?rel = "map (\<lambda>s. s - int ?p) (map (\<lambda>i. int (sum_list (take i ?lens))) [0..<length ?lens])"
  have m: "- py_max (filter (\<lambda>i. i \<le> 0) ?rel) = int col"
    using loc(1) by (simp add: s0 p)
  have i: "index ?rel (py_max (filter (\<lambda>i. i \<le> 0) ?rel)) = ?k"
    by (rule loc(2))
  have nth: "split_newline ?text ! ?k = line"
    unfolding tx using split_newline_nth [OF before, of "line @ rest"] sn by simp
  have m': "py_max (filter (\<lambda>i. i \<le> 0) ?rel) = - int col"
    using m by linarith
  have i': "index ?rel (- int col) = ?k"
    using i unfolding m' .
  show ?thesis
    unfolding print_error_def Let_def error_text_def
    using ne m' i' nth
    by (simp add: split_beta file_read_def)
qed

lemma previous_lines_length:
  assumes "on_line sc symbol before line rest col"
  shows "sum_list (take (count_list before newline) (line_lengths sc)) = length before"
proof -
  from assms have lens: "line_lengths sc = map length (file_lines (file_text sc))"
    and tx: "file_text sc = before @ line @ rest"
    and before: "before = [] \<or> last before = newline"
    unfolding on_line_def by blast+
  have k: "length (file_lines before) = count_list before newline"
    using before by (rule file_lines_count)
  have "file_lines (file_text sc) = file_lines before @ file_lines (line @ rest)"
    unfolding tx using before by (rule file_lines_append)
  then show ?thesis
    by (simp add: lens k [symmetric] file_lines_sum)
qed

lemma shorten_short:
  "length line \<le> max_error_line_length \<Longrightarrow> shorten line c = (line, c)"
  by (simp add: shorten_def)


lemma Scanner_init_file:
  "file_text (Scanner_init text names0) = text \<and>
   line_lengths (Scanner_init text names0) = map length (file_lines text)"
  by (simp add: Scanner_init_def file_read1_def split_beta Let_def)

lemma print_error_scanner: "snd (snd (print_error sc symbol suggestion)) = sc"
  by (simp add: print_error_def file_read_def Let_def split_beta)

text \<open>
  Claim C6 (error display, short line). For a symbol whose position lies in the source,
  on a line of at most 79 characters, \<^verbatim>\<open>print_error\<close> returns the text made of
  \<^verbatim>\<open>Error on line L:\<close> with \<open>L\<close> one more than the number of line feeds before the position
  (the 1-based line), a blank line, the text of that line, a caret indented by the
  position minus the summed lengths of the previous lines, a blank line, and the
  suggestion; it prints that text (after two line feeds).
\<close>

theorem print_error_short_line:
  "on_line sc symbol before line rest col \<Longrightarrow> length line \<le> max_error_line_length \<Longrightarrow>
   print_error sc symbol suggestion =
     (error_text (count_list before newline + 1) line col suggestion,
      [[newline, newline] @ error_text (count_list before newline + 1) line col suggestion],
      sc) \<and>
   int col = int (position symbol)
     - int (sum_list (take (count_list before newline) (line_lengths sc)))"
proof -
  assume on: "on_line sc symbol before line rest col"
    and short: "length line \<le> max_error_line_length"
  from on have "position symbol = length before + col"
    unfolding on_line_def by blast
  with previous_lines_length [OF on]
  have c: "int col = int (position symbol)
     - int (sum_list (take (count_list before newline) (line_lengths sc)))"
    by simp
  from print_error_located [OF on, of suggestion] short
  have "print_error sc symbol suggestion =
     (error_text (count_list before newline + 1) line col suggestion,
      [[newline, newline] @ error_text (count_list before newline + 1) line col suggestion],
      sc)"
    by (simp add: shorten_short Let_def)
  with c show ?thesis by (rule conjI [rotated])
qed

theorem print_error_short_line_witness:
  "(let text = ''ab'' @ [newline] @ ''  cd;'' @ [newline];
        sc = Scanner_init text [];
        symbol = \<lparr>type = NAME, symbol_id = Some 14, position = 5, string = ''cd''\<rparr>
    in on_line sc symbol (''ab'' @ [newline]) ''  cd;'' [newline] 2 \<and>
       fst (print_error sc symbol ''Expected x'') =
         ''Error on line 2:'' @ [newline, newline] @ ''  cd;'' @ [newline] @ ''  ^''
           @ [newline, newline] @ ''Expected x'')"
proof -
  let ?text = "''ab'' @ [newline] @ ''  cd;'' @ [newline]"
  let ?sc = "Scanner_init ?text []"
  let ?symbol = "\<lparr>type = NAME, symbol_id = Some 14, position = 5, string = ''cd''\<rparr>"
  have on: "on_line ?sc ?symbol (''ab'' @ [newline]) ''  cd;'' [newline] 2"
    unfolding on_line_def Scanner_init_file [THEN conjunct1] Scanner_init_file [THEN conjunct2]
    by simp
  have short: "length ''  cd;'' \<le> max_error_line_length"
    by (simp add: max_error_line_length_def)
  have e: "error_text (count_list (''ab'' @ [newline]) newline + 1) ''  cd;'' 2 ''Expected x'' =
      ''Error on line 2:'' @ [newline, newline] @ ''  cd;'' @ [newline] @ ''  ^''
           @ [newline, newline] @ ''Expected x''"
    by code_simp
  from print_error_short_line [OF on short, of "''Expected x''"]
  have "fst (print_error ?sc ?symbol ''Expected x'') =
      error_text (count_list (''ab'' @ [newline]) newline + 1) ''  cd;'' 2 ''Expected x''"
    by simp
  with on show ?thesis unfolding e Let_def by simp
qed



text \<open>
  Claim C10 (the read position survives the error display). \<^verbatim>\<open>print_error\<close> leaves the
  scanner as it found it (the file offset is saved on entry and put back), so the symbols
  read after it are those that would have been read without it: the same stream of any
  length, and the same next symbol when the call comes between two \<^verbatim>\<open>get_symbol\<close> calls.
\<close>

theorem print_error_restores_position:
  "snd (snd (print_error sc symbol suggestion)) = sc \<and>
   symbol_stream n (snd (snd (print_error sc symbol suggestion))) = symbol_stream n sc \<and>
   (let (s1, p1, sc1) = get_symbol sc; (output, p2, sc2) = print_error sc1 s1 suggestion
    in get_symbol sc2 = get_symbol sc1)"
  by (simp add: print_error_scanner split_beta)

text \<open>
  Claim C4 (symbol positions), at the failing input: the file \<^verbatim>\<open>a \\<close> (a name, a space
  and a lone backslash that ends the file). The second symbol is the invalid character
  \<^verbatim>\<open>\\<close>, which is at offset 2, and its position field is 3, the length of the file.
\<close>

theorem lone_backslash_at_end_position:
  "(let text = ''a '' @ [backslash];
        (s1, p1, sc1) = get_symbol (Scanner_init text []);
        (s2, p2, sc2) = get_symbol sc1
    in type s2 = INVALID_CHARACTER \<and> string s2 = [backslash] \<and> position s2 = 3 \<and>
       length text = 3 \<and> text ! 2 = backslash)"
  by code_simp

lemma remaining_update [simp]:
  "remaining (sc\<lparr>comment := b\<rparr>) = remaining sc"
  "remaining (sc\<lparr>names := n\<rparr>) = remaining sc"
  "remaining (sc\<lparr>file_position := fp\<rparr>) = remaining sc"
  by (simp_all add: remaining_def)

lemma remaining_skip_spaces: "remaining (skip_spaces sc) \<le> remaining sc"
proof (induction sc rule: skip_spaces.induct)
  case (1 sc)
  show ?case
  proof (cases "isspace (current_character sc)")
    case True
    with 1 have "remaining (skip_spaces (advance sc)) \<le> remaining (advance sc)" by simp
    also have "\<dots> \<le> remaining sc" by (rule remaining_advance_le)
    finally show ?thesis using True by (simp add: skip_spaces.simps [of sc])
  next
    case False
    then show ?thesis by (simp add: skip_spaces.simps [of sc])
  qed
qed

lemma remaining_check_comment: "remaining (snd (check_comment sc)) \<le> remaining sc"
  by (simp add: check_comment_def Let_def remaining_advance_le)

lemma remaining_comment_loop: "remaining (comment_loop sc) \<le> remaining sc"
proof (induction sc rule: comment_loop.induct)
  case (1 sc)
  let ?next = "advance
             (if current_character sc = [backslash]
              then (let (b, sc') = check_comment sc in sc'\<lparr>comment := b\<rparr>)
              else sc)"
  show ?case
  proof (cases "comment sc \<and> current_character sc \<noteq> []")
    case True
    with 1 have "remaining (comment_loop ?next) \<le> remaining ?next" by simp
    also have "\<dots> \<le> remaining sc"
      using remaining_advance_le [of sc] remaining_advance_le [of "snd (check_comment sc)"]
        remaining_check_comment [of sc]
      by (auto simp: split_beta Let_def remaining_def advance_def file_read1_def)
    finally show ?thesis using True by (simp add: comment_loop.simps [of sc])
  next
    case False
    then show ?thesis
      using remaining_skip_spaces [of sc] by (auto simp: comment_loop.simps [of sc])
  qed
qed

lemma remaining_backwards:
  "current_character sc \<noteq> [] \<Longrightarrow>
   remaining (backwards ((advance sc)\<lparr>comment := b\<rparr>)) \<le> remaining sc"
  by (auto simp: backwards_def advance_def file_read1_def remaining_def Let_def)

lemma remaining_comments: "remaining (comments sc) \<le> remaining sc"
proof (cases "current_character sc = [backslash]")
  case False
  then show ?thesis by (simp add: comments_def)
next
  case True
  then have ne: "current_character sc \<noteq> []" by simp
  let ?sc2 = "(snd (check_comment sc))\<lparr>comment := fst (check_comment sc)\<rparr>"
  let ?sc3 = "if \<not> comment ?sc2 then backwards ?sc2 else ?sc2"
  have "remaining ?sc3 \<le> remaining sc"
    using remaining_backwards [OF ne] remaining_advance_le [of sc]
    by (auto simp: check_comment_def Let_def)
  moreover have "remaining (comment_loop ?sc3) \<le> remaining ?sc3"
    by (rule remaining_comment_loop)
  ultimately show ?thesis using True
    by (simp add: comments_def split_beta Let_def)
qed

lemma remaining_get_name_loop: "remaining (snd (get_name_loop name sc)) \<le> remaining sc"
proof (induction name sc rule: get_name_loop.induct)
  case (1 name sc)
  show ?case
  proof (cases "isalnum (current_character sc)")
    case True
    with 1 have "remaining (snd (get_name_loop (name @ current_character sc) (advance sc)))
        \<le> remaining (advance sc)" by simp
    also have "\<dots> \<le> remaining sc" by (rule remaining_advance_le)
    finally show ?thesis using True by (simp add: get_name_loop.simps [of name sc])
  next
    case False
    then show ?thesis by (simp add: get_name_loop.simps [of name sc])
  qed
qed

lemma remaining_get_number_loop: "remaining (snd (get_number_loop n sc)) \<le> remaining sc"
proof (induction n sc rule: get_number_loop.induct)
  case (1 n sc)
  show ?case
  proof (cases "isdigit (current_character sc)")
    case True
    with 1 have "remaining (snd (get_number_loop (n * 10 + int_of_digit (current_character sc))
        (advance sc))) \<le> remaining (advance sc)" by simp
    also have "\<dots> \<le> remaining sc" by (rule remaining_advance_le)
    finally show ?thesis using True by (simp add: get_number_loop.simps [of n sc])
  next
    case False
    then show ?thesis by (simp add: get_number_loop.simps [of n sc])
  qed
qed

lemma remaining_get_name:
  "current_character sc \<noteq> [] \<Longrightarrow> remaining (snd (get_name sc)) < remaining sc"
  using remaining_get_name_loop [of "current_character sc" "advance sc"]
    remaining_advance_less [of sc]
  by (simp add: get_name_def)

lemma remaining_get_number:
  "current_character sc \<noteq> [] \<Longrightarrow> remaining (snd (get_number sc)) < remaining sc"
  using remaining_get_number_loop [of "int_of_digit (current_character sc)" "advance sc"]
    remaining_advance_less [of sc]
  by (simp add: get_number_def)

lemma dispatch_type_EOF:
  "type (fst (dispatch pos sc)) = EOF \<longleftrightarrow> current_character sc = []"
  by (auto simp: dispatch_def single_def Let_def split_beta isalpha_def isdigit_def)

lemma remaining_dispatch:
  "remaining (snd (dispatch pos sc)) \<le> remaining sc \<and>
   (current_character sc \<noteq> [] \<longrightarrow> remaining (snd (dispatch pos sc)) < remaining sc)"
proof (cases "current_character sc = []")
  case True
  then show ?thesis
    using remaining_advance_le [of sc]
    by (simp add: dispatch_def single_def Let_def isalpha_def isdigit_def)
next
  case False
  then have "remaining (snd (dispatch pos sc)) < remaining sc"
    using remaining_get_name [of sc] remaining_get_number [of sc] remaining_advance_less [of sc]
    by (simp add: dispatch_def single_def Let_def split_beta)
  with False show ?thesis by simp
qed

lemma get_symbol_remaining:
  "remaining (snd (snd (get_symbol sc))) \<le> remaining sc \<and>
   (type (fst (get_symbol sc)) \<noteq> EOF \<longrightarrow> remaining (snd (snd (get_symbol sc))) < remaining sc)"
proof -
  let ?sc1 = "comments (skip_spaces sc)"
  let ?d = "dispatch (nat (file_position ?sc1)) ?sc1"
  have a: "remaining ?sc1 \<le> remaining sc"
    using remaining_comments [of "skip_spaces sc"] remaining_skip_spaces [of sc] by simp
  have s: "snd (snd (get_symbol sc)) = snd ?d"
    using print_error_scanner [of "snd ?d" "fst ?d"]
    by (simp add: get_symbol_def Let_def split_beta)
  have t: "fst (get_symbol sc) = fst ?d"
    by (simp add: get_symbol_def Let_def split_beta)
  from remaining_dispatch [of "nat (file_position ?sc1)" ?sc1] a
    dispatch_type_EOF [of "nat (file_position ?sc1)" ?sc1]
  show ?thesis unfolding s t by auto
qed

definition wf_symbol :: "symbol \<Rightarrow> bool" where
  "wf_symbol s = (if string s = '';'' then type s = SEMICOLON else True)"

lemma get_name_loop_prefix: "\<exists>r. fst (get_name_loop name sc) = name @ r"
proof (induction name sc rule: get_name_loop.induct)
  case (1 name sc)
  show ?case
  proof (cases "isalnum (current_character sc)")
    case True
    with 1 obtain r where
      "fst (get_name_loop (name @ current_character sc) (advance sc)) = (name @ current_character sc) @ r"
      by blast
    with True show ?thesis by (simp add: get_name_loop.simps [of name sc])
  next
    case False
    then show ?thesis by (simp add: get_name_loop.simps [of name sc])
  qed
qed

lemma get_name_not_semicolon: "isalpha (current_character sc) \<Longrightarrow> fst (get_name sc) \<noteq> '';''"
proof
  assume a: "isalpha (current_character sc)" and e: "fst (get_name sc) = '';''"
  obtain r where r: "fst (get_name sc) = current_character sc @ r"
    unfolding get_name_def using get_name_loop_prefix by blast
  from a obtain c cs where c: "current_character sc = c # cs" and "alpha_char c"
    by (cases "current_character sc") (auto simp: isalpha_def)
  with r e have "alpha_char CHR '';''" by simp
  then show False by (simp add: alpha_char_def)
qed

lemma char_of_digit_not_semicolon: "d < 10 \<Longrightarrow> char_of_digit d \<noteq> CHR '';''"
proof
  assume d: "d < 10" and "char_of_digit d = CHR '';''"
  then have "(of_char (char_of (48 + d) :: char) :: nat) = of_char CHR '';''"
    by (simp add: char_of_digit_def)
  with d show False by simp
qed

lemma str_not_semicolon: "CHR '';'' \<notin> set (str n)"
proof (induction n rule: str.induct)
  case (1 n)
  show ?case
  proof (cases "n < 10")
    case True
    then show ?thesis
      using char_of_digit_not_semicolon [of n] by (simp add: str.simps [of n])
  next
    case False
    with 1 have "CHR '';'' \<notin> set (str (n div 10))" by simp
    with False show ?thesis
      using char_of_digit_not_semicolon [of "n mod 10"] by (simp add: str.simps [of n])
  qed
qed

lemma str_neq_semicolon: "str n \<noteq> '';''"
  using str_not_semicolon [of n] by auto

lemma dispatch_wf: "wf_symbol (fst (dispatch pos sc))"
proof (cases "current_character sc = '';''")
  case True
  then show ?thesis
    by (simp add: wf_symbol_def dispatch_def single_def isalpha_def isdigit_def
        alpha_char_def digit_char_def)
next
  case False
  have "string (fst (dispatch pos sc)) \<noteq> '';''"
    using False get_name_not_semicolon [of sc] str_neq_semicolon
    by (simp add: dispatch_def single_def Let_def split_beta)
  then show ?thesis by (simp add: wf_symbol_def)
qed

lemma get_symbol_wf: "wf_symbol (fst (get_symbol sc))"
  by (simp add: get_symbol_def Let_def split_beta dispatch_wf)

section \<open>The scanner on a file\<close>

text \<open>\<open>scanner_on text sc\<close>: what holds of the scanner of a file with content \<open>text\<close>, from
  its construction on. The file and the line lengths are those of the file;
  \<^verbatim>\<open>file_position\<close> is not negative; and a current character was read from the file, so
  the read offset is past it.\<close>

definition scanner_on :: "string \<Rightarrow> scanner \<Rightarrow> bool" where
  "scanner_on text sc =
     (file_text sc = text \<and> line_lengths sc = map length (file_lines text) \<and>
      0 \<le> file_position sc \<and>
      (if current_character sc = [] then True else 0 < file_tell sc))"

lemma scanner_on_init: "scanner_on text (Scanner_init text names0)"
  by (simp add: scanner_on_def Scanner_init_def file_read1_def split_beta Let_def)

lemma scanner_on_advance: "scanner_on text sc \<Longrightarrow> scanner_on text (advance sc)"
  by (simp add: scanner_on_def advance_def file_read1_def split_beta Let_def)

lemma scanner_on_update [simp]:
  "scanner_on text (sc\<lparr>comment := b\<rparr>) = scanner_on text sc"
  "scanner_on text (sc\<lparr>names := n\<rparr>) = scanner_on text sc"
  by (simp_all add: scanner_on_def)

lemma scanner_on_skip_spaces: "scanner_on text sc \<Longrightarrow> scanner_on text (skip_spaces sc)"
proof (induction sc rule: skip_spaces.induct)
  case (1 sc)
  show ?case
  proof (cases "isspace (current_character sc)")
    case True
    from "1.prems" have "scanner_on text (advance sc)" by (rule scanner_on_advance)
    with "1.IH" [OF True] have "scanner_on text (skip_spaces (advance sc))" .
    moreover from True have "skip_spaces sc = skip_spaces (advance sc)"
      by (subst skip_spaces.simps) simp
    ultimately show ?thesis by simp
  next
    case False
    then have "skip_spaces sc = sc" by (subst skip_spaces.simps) simp
    with "1.prems" show ?thesis by simp
  qed
qed

lemma scanner_on_check_comment:
  "scanner_on text sc \<Longrightarrow> scanner_on text (snd (check_comment sc))"
  by (simp add: check_comment_def Let_def scanner_on_advance)

text \<open>Where \<^verbatim>\<open>get_symbol\<close> calls \<^verbatim>\<open>backwards\<close>, after \<^verbatim>\<open>check_comment\<close> on a backslash, the
  offset it seeks to (\<^verbatim>\<open>tell() - 1\<close> at the end of the file, \<^verbatim>\<open>tell() - 2\<close> otherwise) is
  inside the file.\<close>

lemma backwards_seek_in_file:
  "scanner_on text sc \<Longrightarrow> current_character sc = [backslash] \<Longrightarrow>
   (if current_character (snd (check_comment sc)) = []
    then 1 \<le> file_tell (snd (check_comment sc))
    else 2 \<le> file_tell (snd (check_comment sc)))"
  by (auto simp: scanner_on_def check_comment_def advance_def file_read1_def Let_def)

lemma scanner_on_backwards:
  "scanner_on text sc \<Longrightarrow> current_character sc = [backslash] \<Longrightarrow>
   scanner_on text (backwards ((snd (check_comment sc))\<lparr>comment := b\<rparr>))"
  by (auto simp: scanner_on_def check_comment_def backwards_def advance_def file_read1_def
      Let_def)

lemma scanner_on_comment_loop: "scanner_on text sc \<Longrightarrow> scanner_on text (comment_loop sc)"
proof (induction sc rule: comment_loop.induct)
  case (1 sc)
  let ?next = "advance
             (if current_character sc = [backslash]
              then (let (b, sc') = check_comment sc in sc'\<lparr>comment := b\<rparr>)
              else sc)"
  show ?case
  proof (cases "comment sc")
    case False
    then have "comment_loop sc = skip_spaces sc" by (subst comment_loop.simps) simp
    with "1.prems" show ?thesis by (simp add: scanner_on_skip_spaces)
  next
    case True
    show ?thesis
    proof (cases "current_character sc = []")
      case e: True
      with True have "comment_loop sc = sc" by (subst comment_loop.simps) simp
      with "1.prems" show ?thesis by simp
    next
      case False
      from "1.prems" have "scanner_on text ?next"
        by (simp add: split_beta Let_def scanner_on_advance scanner_on_check_comment)
      with "1.IH" [OF True False] have "scanner_on text (comment_loop ?next)" .
      moreover from True False have "comment_loop sc = comment_loop ?next"
        by (subst comment_loop.simps) simp
      ultimately show ?thesis by simp
    qed
  qed
qed

lemma scanner_on_comments: "scanner_on text sc \<Longrightarrow> scanner_on text (comments sc)"
proof (cases "current_character sc = [backslash]")
  case False
  then show "scanner_on text sc \<Longrightarrow> ?thesis" by (simp add: comments_def)
next
  case True
  assume a: "scanner_on text sc"
  let ?sc2 = "(snd (check_comment sc))\<lparr>comment := fst (check_comment sc)\<rparr>"
  let ?sc3 = "if \<not> comment ?sc2 then backwards ?sc2 else ?sc2"
  have "scanner_on text ?sc3"
    using a True scanner_on_backwards [OF a True] scanner_on_check_comment [OF a] by simp
  then have "scanner_on text (comment_loop ?sc3)" by (rule scanner_on_comment_loop)
  with True show ?thesis by (simp add: comments_def split_beta Let_def)
qed

text \<open>The position of a symbol is \<^verbatim>\<open>file_position\<close> where it starts, which is not
  negative.\<close>

lemma comments_file_position:
  "scanner_on text sc \<Longrightarrow> 0 \<le> file_position (comments (skip_spaces sc))"
proof -
  assume "scanner_on text sc"
  then have "scanner_on text (comments (skip_spaces sc))"
    by (intro scanner_on_comments scanner_on_skip_spaces)
  then show ?thesis by (simp add: scanner_on_def)
qed

lemma scanner_on_get_name_loop:
  "scanner_on text sc \<Longrightarrow> scanner_on text (snd (get_name_loop acc sc))"
proof (induction acc sc rule: get_name_loop.induct)
  case (1 acc sc)
  show ?case
  proof (cases "isalnum (current_character sc)")
    case True
    from "1.prems" have "scanner_on text (advance sc)" by (rule scanner_on_advance)
    with "1.IH" [OF True]
    have "scanner_on text (snd (get_name_loop (acc @ current_character sc) (advance sc)))" .
    moreover from True
    have "get_name_loop acc sc = get_name_loop (acc @ current_character sc) (advance sc)"
      by (subst get_name_loop.simps) simp
    ultimately show ?thesis by simp
  next
    case False
    then have "get_name_loop acc sc = (acc, sc)" by (subst get_name_loop.simps) simp
    with "1.prems" show ?thesis by simp
  qed
qed

lemma scanner_on_get_number_loop:
  "scanner_on text sc \<Longrightarrow> scanner_on text (snd (get_number_loop n sc))"
proof (induction n sc rule: get_number_loop.induct)
  case (1 n sc)
  show ?case
  proof (cases "isdigit (current_character sc)")
    case True
    from "1.prems" have "scanner_on text (advance sc)" by (rule scanner_on_advance)
    with "1.IH" [OF True]
    have "scanner_on text
      (snd (get_number_loop (n * 10 + int_of_digit (current_character sc)) (advance sc)))" .
    moreover from True
    have "get_number_loop n sc =
        get_number_loop (n * 10 + int_of_digit (current_character sc)) (advance sc)"
      by (subst get_number_loop.simps) simp
    ultimately show ?thesis by simp
  next
    case False
    then have "get_number_loop n sc = (n, sc)" by (subst get_number_loop.simps) simp
    with "1.prems" show ?thesis by simp
  qed
qed

lemma scanner_on_dispatch:
  "scanner_on text sc \<Longrightarrow> scanner_on text (snd (dispatch pos sc))"
  by (simp add: dispatch_def single_def get_name_def get_number_def Let_def split_beta
      scanner_on_advance scanner_on_get_name_loop scanner_on_get_number_loop)

text \<open>Every scanner reached from \<^verbatim>\<open>Scanner.__init__\<close> by \<^verbatim>\<open>get_symbol\<close> calls is one.\<close>

lemma scanner_on_get_symbol:
  "scanner_on text sc \<Longrightarrow> scanner_on text (snd (snd (get_symbol sc)))"
proof -
  assume a: "scanner_on text sc"
  let ?sc1 = "comments (skip_spaces sc)"
  let ?d = "dispatch (nat (file_position ?sc1)) ?sc1"
  have s: "snd (snd (get_symbol sc)) = snd ?d"
    using print_error_scanner [of "snd ?d" "fst ?d"]
    by (simp add: get_symbol_def Let_def split_beta)
  from a have "scanner_on text ?sc1" by (intro scanner_on_comments scanner_on_skip_spaces)
  then show ?thesis unfolding s by (rule scanner_on_dispatch)
qed

text \<open>The offsets of \<^verbatim>\<open>print_error\<close> that are not past the symbol include that of the first
  line, so \<^verbatim>\<open>max\<close> is never applied to an empty list.\<close>

lemma print_error_max_nonempty:
  "line_lengths sc \<noteq> [] \<Longrightarrow>
   filter (\<lambda>i. i \<le> 0)
     (map (\<lambda>s. s - int (position at_symbol))
        (map (\<lambda>i. int (sum_list (take i (line_lengths sc)))) [0..<length (line_lengths sc)]))
   \<noteq> []"
proof -
  assume "line_lengths sc \<noteq> []"
  then have "0 < length (line_lengths sc)" by simp
  then have "[0..<length (line_lengths sc)] = 0 # [Suc 0..<length (line_lengths sc)]"
    by (simp add: upt_conv_Cons)
  then show ?thesis by simp
qed

section \<open>The parser\<close>

text \<open>Modelled from the spec: the devices, the network and the monitors (the modules
  \<^verbatim>\<open>devices.py\<close>, \<^verbatim>\<open>network.py\<close> and \<^verbatim>\<open>monitors.py\<close> are not among the sources). Their
  state is a value of an arbitrary type \<open>'k\<close>, and the operations the parser calls are
  parameters: each takes and returns the name table (the three objects share it with the
  scanner and the parser) and that state. The error codes are those the spec lists.\<close>

datatype gate_kind = AND_gate | NAND_gate | OR_gate | NOR_gate | XOR_gate | NOT_gate

datatype network_error =
  NO_ERROR | INPUT_CONNECTED | OUTPUT_TO_OUTPUT | DEVICE_ABSENT_1 | DEVICE_ABSENT_2
  | PORT_ABSENT_1 | PORT_ABSENT_2

datatype monitor_error = MONITOR_NO_ERROR | MONITOR_PRESENT | NOT_OUTPUT | DEVICE_ABSENT

record 'k kernel_ops =
  make_clock :: "nat \<Rightarrow> nat option \<Rightarrow> names_list \<times> 'k \<Rightarrow> names_list \<times> 'k"
  make_switch :: "nat \<Rightarrow> nat option \<Rightarrow> names_list \<times> 'k \<Rightarrow> names_list \<times> 'k"
  make_gate :: "nat \<Rightarrow> gate_kind \<Rightarrow> nat option \<Rightarrow> names_list \<times> 'k \<Rightarrow> names_list \<times> 'k"
  make_d_type :: "nat \<Rightarrow> names_list \<times> 'k \<Rightarrow> names_list \<times> 'k"
  make_connection :: "nat option \<Rightarrow> nat option \<Rightarrow> nat option \<Rightarrow> nat option \<Rightarrow>
     names_list \<times> 'k \<Rightarrow> network_error \<times> names_list \<times> 'k"
  check_network :: "names_list \<times> 'k \<Rightarrow> string"
  network_error_message :: "network_error \<Rightarrow> string"
  make_monitor :: "nat option \<Rightarrow> nat option \<Rightarrow> names_list \<times> 'k \<Rightarrow>
     monitor_error \<times> names_list \<times> 'k"
  monitors_error_message :: "monitor_error \<Rightarrow> string"

text \<open>The parser object. \<open>error_flag\<close> is \<^verbatim>\<open>self.error_\<close>. \<open>cur_pin_name_list\<close> holds symbols
  of the scanner or the placeholder \<^verbatim>\<open>Symbol()\<close> that \<^verbatim>\<open>__point\<close> appends for a point written
  without a pin (\<open>None\<close>: all its fields are \<^verbatim>\<open>None\<close>). \<open>cur_arrow\<close> and \<open>check_symbol\<close> are
  attributes that do not exist until they are first assigned (\<open>None\<close>). The name table is
  the scanner's (\<^verbatim>\<open>self.__names\<close> is the same object), \<open>kernel\<close> is the state of devices,
  network and monitors, and \<open>stdout\<close> collects what is printed.\<close>

record 'k parser =
  symbol :: symbol
  error_flag :: bool
  error_count :: nat
  skip :: bool
  cur_attribute :: "nat option"
  error_msg :: string
  cur_device_name_list :: "symbol list"
  cur_pin_name_list :: "symbol option list"
  cur_arrow :: "symbol option"
  check_symbol :: "symbol option"
  scanner :: scanner
  kernel :: 'k
  stdout :: "string list"

definition Parser_init :: "scanner \<Rightarrow> 'k \<Rightarrow> 'k parser" where
  "Parser_init sc k =
     (let (s, printed, sc') = get_symbol sc
      in \<lparr>symbol = s, error_flag = False, error_count = 0, skip = False,
          cur_attribute = None, error_msg = [], cur_device_name_list = [],
          cur_pin_name_list = [], cur_arrow = None, check_symbol = None,
          scanner = sc', kernel = k, stdout = printed\<rparr>)"

text \<open>\<^verbatim>\<open>self.symbol = self.scanner.get_symbol()\<close>.\<close>

definition next_symbol :: "'k parser \<Rightarrow> 'k parser" where
  "next_symbol p =
     (let (s, printed, sc') = get_symbol (scanner p)
      in p\<lparr>symbol := s, scanner := sc', stdout := stdout p @ printed\<rparr>)"

text \<open>The symbols not yet consumed: what the scanner has left, and the current symbol
  unless it is the end of the file.\<close>

definition pending :: "'k parser \<Rightarrow> nat" where
  "pending p = remaining (scanner p) + (if type (symbol p) = EOF then 0 else 1)"

lemma pending_next_symbol_le: "pending (next_symbol p) \<le> pending p + 1"
proof -
  from get_symbol_remaining [of "scanner p"] show ?thesis
  by (auto simp: pending_def next_symbol_def split_beta)
qed

lemma pending_next_symbol:
  "type (symbol p) \<noteq> EOF \<Longrightarrow> pending (next_symbol p) < pending p"
  using get_symbol_remaining [of "scanner p"]
  by (auto simp: pending_def next_symbol_def split_beta)

text \<open>The resynchronisation loop of \<^verbatim>\<open>__error\<close>.\<close>

function error_loop :: "string \<Rightarrow> 'k parser \<Rightarrow> 'k parser" where
  "error_loop stopping_symbol p =
     (if string (symbol p) \<noteq> stopping_symbol \<and> type (symbol p) \<noteq> EOF
      then error_loop stopping_symbol (next_symbol p)
      else p)"
  by pat_completeness auto
termination
  by (relation "measure (\<lambda>(stopping_symbol, p). pending p)")
     (auto simp: pending_next_symbol)

declare error_loop.simps [simp del]

text \<open>\<^verbatim>\<open>__error\<close> with the symbol given (\<open>error_at\<close>) and with the default, the current
  symbol (\<open>error\<close>). The stopping symbol is \<open>None\<close> or the string; the returned message is
  not used by any caller and is left out.\<close>

definition error_at :: "string \<Rightarrow> string option \<Rightarrow> symbol \<Rightarrow> 'k parser \<Rightarrow> 'k parser" where
  "error_at message stopping_symbol at_symbol p =
     (let p1 = p\<lparr>error_flag := True, error_count := error_count p + 1\<rparr>;
          (error_output, printed, sc') = print_error (scanner p1) at_symbol message;
          p2 = p1\<lparr>scanner := sc', stdout := stdout p1 @ printed\<rparr>;
          p3 = (case stopping_symbol of None \<Rightarrow> p2 | Some st \<Rightarrow> error_loop st p2)
      in p3\<lparr>error_msg := error_msg p3 @ [newline, newline] @ error_output\<rparr>)"

definition error :: "string \<Rightarrow> string option \<Rightarrow> 'k parser \<Rightarrow> 'k parser" where
  "error message stopping_symbol p = error_at message stopping_symbol (symbol p) p"

section \<open>What every parser step preserves\<close>

text \<open>\<open>follows p q\<close>: state \<open>q\<close> comes after state \<open>p\<close> in a parse. Nothing is unread that
  was read; the current symbol stays one whose string is \<^verbatim>\<open>;\<close> only if it is a semicolon;
  once the error flag is set it stays set and devices, network and monitors stay as they
  are; and the flag stays in step with the counter.\<close>

definition follows :: "'k parser \<Rightarrow> 'k parser \<Rightarrow> bool" where
  "follows p q =
     (pending q \<le> pending p \<and>
      (wf_symbol (symbol p) \<longrightarrow> wf_symbol (symbol q)) \<and>
      (error_flag p \<longrightarrow> error_flag q \<and> kernel q = kernel p) \<and>
      ((error_flag p \<longleftrightarrow> error_count p \<noteq> 0) \<longrightarrow> (error_flag q \<longleftrightarrow> error_count q \<noteq> 0)))"

lemma follows_refl: "follows p p"
  by (simp add: follows_def)

lemma follows_trans: "follows p q \<Longrightarrow> follows q r \<Longrightarrow> follows p r"
  by (auto simp: follows_def)

lemma follows_update [simp]:
  "follows p (q\<lparr>skip := b\<rparr>) = follows p q"
  "follows p (q\<lparr>cur_attribute := a\<rparr>) = follows p q"
  "follows p (q\<lparr>error_msg := m\<rparr>) = follows p q"
  "follows p (q\<lparr>cur_device_name_list := ds\<rparr>) = follows p q"
  "follows p (q\<lparr>cur_pin_name_list := ps\<rparr>) = follows p q"
  "follows p (q\<lparr>cur_arrow := ar\<rparr>) = follows p q"
  "follows p (q\<lparr>check_symbol := cs\<rparr>) = follows p q"
  "follows p (q\<lparr>stdout := out\<rparr>) = follows p q"
  by (simp_all add: follows_def pending_def)

lemma follows_next_symbol: "follows p q \<Longrightarrow> follows p (next_symbol q)"
proof -
  assume a: "follows p q"
  have "pending (next_symbol q) \<le> pending q"
    using get_symbol_remaining [of "scanner q"]
    by (auto simp: pending_def next_symbol_def split_beta)
  moreover have "wf_symbol (symbol (next_symbol q))"
    by (simp add: next_symbol_def split_beta get_symbol_wf)
  moreover have "error_flag (next_symbol q) = error_flag q"
    "error_count (next_symbol q) = error_count q" "kernel (next_symbol q) = kernel q"
    by (simp_all add: next_symbol_def split_beta)
  ultimately show ?thesis using a by (auto simp: follows_def)
qed

lemma follows_error_loop: "follows p q \<Longrightarrow> follows p (error_loop st q)"
proof (induction st q rule: error_loop.induct)
  case (1 st q)
  show ?case
  proof (cases "string (symbol q) \<noteq> st \<and> type (symbol q) \<noteq> EOF")
    case True
    from "1.prems" have "follows p (next_symbol q)" by (rule follows_next_symbol)
    with 1 True show ?thesis by (simp add: error_loop.simps [of st q])
  next
    case False
    with "1.prems" show ?thesis by (auto simp: error_loop.simps [of st q])
  qed
qed

lemma error_at_unfold:
  "error_at message stop at_symbol q =
     (let q2 = q\<lparr>error_flag := True, error_count := error_count q + 1, scanner := scanner q,
                  stdout := stdout q @ fst (snd (print_error (scanner q) at_symbol message))\<rparr>;
          q3 = (case stop of None \<Rightarrow> q2 | Some st \<Rightarrow> error_loop st q2)
      in q3\<lparr>error_msg := error_msg q3 @ [newline, newline]
                 @ fst (print_error (scanner q) at_symbol message)\<rparr>)"
  by (cases stop) (simp_all add: error_at_def Let_def split_beta print_error_scanner)

lemma follows_error_at: "follows p q \<Longrightarrow> follows p (error_at message stop at_symbol q)"
proof -
  assume a: "follows p q"
  let ?q2 = "q\<lparr>error_flag := True, error_count := error_count q + 1, scanner := scanner q,
               stdout := stdout q @ fst (snd (print_error (scanner q) at_symbol message))\<rparr>"
  have "follows p ?q2" using a by (auto simp: follows_def pending_def)
  then have "follows p (case stop of None \<Rightarrow> ?q2 | Some st \<Rightarrow> error_loop st ?q2)"
    by (cases stop) (simp_all add: follows_error_loop)
  then show ?thesis
    unfolding error_at_unfold Let_def by simp
qed

lemma follows_error: "follows p q \<Longrightarrow> follows p (error message stop q)"
  by (simp add: error_def follows_error_at)

text \<open>\<^verbatim>\<open>int(s)\<close> for the string of a NUMBER symbol.\<close>

definition py_int :: "string \<Rightarrow> nat" where
  "py_int s = foldl (\<lambda>n c. n * 10 + int_of_digit [c]) 0 s"

text \<open>\<^verbatim>\<open>__name\<close>: the result is the truth value of what the source returns (it returns
  nothing, hence a false value, after the keyword error). The argument is the string
  \<^verbatim>\<open>"devicename"\<close> or \<^verbatim>\<open>"pinname"\<close>.\<close>

definition name :: "string \<Rightarrow> 'k parser \<Rightarrow> bool \<times> 'k parser" where
  "name kind p =
     (if type (symbol p) = NAME then
        (let p1 = (if kind = ''devicename'' \<and> \<not> error_flag p
                   then p\<lparr>cur_device_name_list := cur_device_name_list p @ [symbol p]\<rparr>
                   else p);
             p2 = (if kind = ''pinname'' \<and> \<not> error_flag p1
                   then p1\<lparr>cur_pin_name_list := cur_pin_name_list p1 @ [Some (symbol p1)]\<rparr>
                   else p1)
         in (True, next_symbol p2))
      else if type (symbol p) = KEYWORD then
        (False,
         error (''Names cannot be Keywords: 'CIRCUIT', 'DEVICES', 'CONNECT','' @ '' 'MONITOR', 'END','CLOCK', 'SWITCH', 'AND', 'NAND', 'OR','' @ '' 'NOR', 'XOR', 'NOT', 'DTYPE'' @ [CHR 0x27]) (Some '';'') p)
      else
        (False,
         if kind = ''devicename''
         then error ''Device names must start with a letter and be alphanumeric'' (Some '';'') p
         else if kind = ''pinname''
         then error ''Pin names must start with a letter and be alphanumeric'' (Some '';'') p
         else p))"

definition devicename :: "'k parser \<Rightarrow> bool \<times> 'k parser" where
  "devicename p = name ''devicename'' p"

definition pinname :: "'k parser \<Rightarrow> bool \<times> 'k parser" where
  "pinname p = name ''pinname'' p"

text \<open>The tail shared by \<^verbatim>\<open>__clock\<close> and the four gate routines, after the parameter was
  read: \<^verbatim>\<open>if not self.skip: ...\<close>, then \<^verbatim>\<open>self.skip = False\<close>.\<close>

definition close_parenthesis :: "'k parser \<Rightarrow> 'k parser" where
  "close_parenthesis p =
     (let p1 = (if \<not> skip p then
                  (let p2 = next_symbol p
                   in if type (symbol p2) = PARENTHESIS_RIGHT then next_symbol p2
                      else error (''Expected ')'' @ [CHR 0x27]) (Some '';'') p2)
                else p)
      in p1\<lparr>skip := False\<rparr>)"

definition clock :: "'k parser \<Rightarrow> 'k parser" where
  "clock p =
     (if type (symbol p) = PARENTHESIS_LEFT then
        (let p1 = next_symbol p in
         if type (symbol p1) = NUMBER then
           (let num = py_int (string (symbol p1));
                p2 = (if num \<le> 0
                      then (error ''Clock half period must be greater than 0'' (Some '';'') p1)
                             \<lparr>skip := True\<rparr>
                      else p1);
                p3 = (if \<not> error_flag p2 then p2\<lparr>cur_attribute := Some num\<rparr> else p2)
            in close_parenthesis p3)
         else error (''Expected a number n > 0, the number of simulation cycles after '' @ ''which the state changes'') (Some '';'') p1)
      else error (''Expected '('' @ [CHR 0x27]) (Some '';'') p)"

definition switch :: "'k parser \<Rightarrow> 'k parser" where
  "switch p =
     (if type (symbol p) = PARENTHESIS_LEFT then
        (let p1 = next_symbol p in
         if symbol_id (symbol p1) = Some 0 \<or> symbol_id (symbol p1) = Some 1 then
           (let p2 = (if \<not> error_flag p1 then p1\<lparr>cur_attribute := symbol_id (symbol p1)\<rparr>
                      else p1);
                p3 = next_symbol p2
            in if type (symbol p3) = PARENTHESIS_RIGHT then next_symbol p3
               else error (''Expected ')'' @ [CHR 0x27]) (Some '';'') p3)
         else error ''Expected state, either 0(OFF) or 1(ON)'' (Some '';'') p1)
      else error (''Expected '('' @ [CHR 0x27]) (Some '';'') p)"

text \<open>\<^verbatim>\<open>__And\<close>, \<^verbatim>\<open>__nand\<close>, \<^verbatim>\<open>__nor\<close> and \<^verbatim>\<open>__oor\<close> are the same routine but for the message
  given when the parameter is not a number.\<close>

definition gate_inputs :: "string \<Rightarrow> 'k parser \<Rightarrow> 'k parser" where
  "gate_inputs expected p =
     (if type (symbol p) = PARENTHESIS_LEFT then
        (let p1 = next_symbol p in
         if type (symbol p1) = NUMBER then
           (let num = py_int (string (symbol p1));
                p2 = (if \<not> (0 < num \<and> num \<le> 16)
                      then error ''Number of inputs must be between 1-16'' (Some '';'')
                             (p1\<lparr>skip := True\<rparr>)
                      else p1);
                p3 = (if \<not> error_flag p2 then p2\<lparr>cur_attribute := Some num\<rparr> else p2)
            in close_parenthesis p3)
         else error expected (Some '';'') p1)
      else error (''Expected '('' @ [CHR 0x27]) (Some '';'') p)"

definition And :: "'k parser \<Rightarrow> 'k parser" where
  "And = gate_inputs ''Expected number of inputs for AND gate (valid range: 1-16)''"

definition nand :: "'k parser \<Rightarrow> 'k parser" where
  "nand = gate_inputs ''Expected number of inputs for NAND gate (valid range: 1-16)''"

definition nor :: "'k parser \<Rightarrow> 'k parser" where
  "nor = gate_inputs ''Expected number of inputs for NOR gate (valid range: 1-16)''"

definition oor :: "'k parser \<Rightarrow> 'k parser" where
  "oor = gate_inputs ''Expected number of inputs for OR gate (valid range: 1-16)''"

lemma follows_name: "follows p q \<Longrightarrow> follows p (snd (name kind q))"
  by (simp add: name_def Let_def follows_next_symbol follows_error)

lemma follows_devicename: "follows p q \<Longrightarrow> follows p (snd (devicename q))"
  by (simp add: devicename_def follows_name)

lemma follows_pinname: "follows p q \<Longrightarrow> follows p (snd (pinname q))"
  by (simp add: pinname_def follows_name)

lemma follows_close_parenthesis: "follows p q \<Longrightarrow> follows p (close_parenthesis q)"
  by (simp add: close_parenthesis_def Let_def follows_next_symbol follows_error)

lemma follows_clock: "follows p q \<Longrightarrow> follows p (clock q)"
  by (simp add: clock_def Let_def follows_next_symbol follows_error follows_close_parenthesis)

lemma follows_switch: "follows p q \<Longrightarrow> follows p (switch q)"
  by (simp add: switch_def Let_def follows_next_symbol follows_error)

lemma follows_gate_inputs: "follows p q \<Longrightarrow> follows p (gate_inputs expected q)"
  by (simp add: gate_inputs_def Let_def follows_next_symbol follows_error
      follows_close_parenthesis)

text \<open>The \<^verbatim>\<open>if not self.error_:\<close> block of each device kind in \<^verbatim>\<open>__device\<close>: the names of
  the clause are looked up and the device is made for each ID in turn.\<close>

definition make_devices ::
  "(nat \<Rightarrow> names_list \<times> 'k \<Rightarrow> names_list \<times> 'k) \<Rightarrow> 'k parser \<Rightarrow> 'k parser" where
  "make_devices make_device p =
     (if \<not> error_flag p then
        (let (device_ids, names1) =
               lookup_list (names (scanner p)) (map string (cur_device_name_list p));
             (names2, k) = fold make_device device_ids (names1, kernel p)
         in p\<lparr>scanner := (scanner p)\<lparr>names := names2\<rparr>, kernel := k\<rparr>)
      else p)"

text \<open>The \<^verbatim>\<open>while\<close> loop of \<^verbatim>\<open>__device\<close> over the names after a comma; the flag is
  \<^verbatim>\<open>valid_device_list\<close>.\<close>

function device_names_loop :: "bool \<Rightarrow> 'k parser \<Rightarrow> bool \<times> 'k parser" where
  "device_names_loop valid_device_list p =
     (if type (symbol p) = COMMA \<and> type (symbol p) \<noteq> EOF \<and> valid_device_list
      then (let (valid, p') = devicename (next_symbol p) in device_names_loop valid p')
      else (valid_device_list, p))"
  by pat_completeness auto
termination
proof (relation "measure (\<lambda>(valid_device_list, p). pending p)")
  show "wf (measure (\<lambda>(valid_device_list, p :: 'k parser). pending p))" by simp
next
  fix valid_device_list :: bool and p :: "'k parser" and x valid p'
  assume c: "type (symbol p) = COMMA \<and> type (symbol p) \<noteq> EOF \<and> valid_device_list"
    and x: "x = devicename (next_symbol p)" "(valid, p') = x"
  have "follows (next_symbol p) (snd (devicename (next_symbol p)))"
    by (rule follows_devicename) (rule follows_refl)
  then have "pending (snd (devicename (next_symbol p))) \<le> pending (next_symbol p)"
    by (simp add: follows_def)
  moreover from c have "pending (next_symbol p) < pending p"
    by (simp add: pending_next_symbol)
  moreover from x have "p' = snd (devicename (next_symbol p))"
    by (metis snd_conv)
  ultimately show "((valid, p'), valid_device_list, p)
      \<in> measure (\<lambda>(valid_device_list, p). pending p)"
    by simp
qed

declare device_names_loop.simps [simp del]

text \<open>The part of \<^verbatim>\<open>__device\<close> after the \<^verbatim>\<open>=\<close>: the device kind, recognised by the ID of
  the current symbol.\<close>

definition device_kind :: "'k kernel_ops \<Rightarrow> 'k parser \<Rightarrow> 'k parser" where
  "device_kind ops p =
     (let sid = symbol_id (symbol p); sc = scanner p in
      if sid = Some (CLOCK_ID sc) then
        (let p1 = clock (next_symbol p)
         in make_devices (\<lambda>device_id. make_clock ops device_id (cur_attribute p1)) p1)
      else if sid = Some (SWITCH_ID sc) then
        (let p1 = switch (next_symbol p)
         in make_devices (\<lambda>device_id. make_switch ops device_id (cur_attribute p1)) p1)
      else if sid = Some (AND_ID sc) then
        (let p1 = And (next_symbol p)
         in make_devices (\<lambda>device_id. make_gate ops device_id AND_gate (cur_attribute p1)) p1)
      else if sid = Some (NAND_ID sc) then
        (let p1 = nand (next_symbol p)
         in make_devices (\<lambda>device_id. make_gate ops device_id NAND_gate (cur_attribute p1)) p1)
      else if sid = Some (OR_ID sc) then
        (let p1 = oor (next_symbol p)
         in make_devices (\<lambda>device_id. make_gate ops device_id OR_gate (cur_attribute p1)) p1)
      else if sid = Some (NOR_ID sc) then
        (let p1 = nor (next_symbol p)
         in make_devices (\<lambda>device_id. make_gate ops device_id NOR_gate (cur_attribute p1)) p1)
      else if sid = Some (DTYPE_ID sc) then
        make_devices (\<lambda>device_id. make_d_type ops device_id) (next_symbol p)
      else if sid = Some (XOR_ID sc) then
        make_devices (\<lambda>device_id. make_gate ops device_id XOR_gate (Some 2)) (next_symbol p)
      else if sid = Some (NOT_ID sc) then
        make_devices (\<lambda>device_id. make_gate ops device_id NOT_gate (Some 1)) (next_symbol p)
      else error (''Not a supported device, supported devices: CLOCK, SWITCH, AND, '' @ ''NAND, OR, NOR, DTYPE, XOR, NOT'')
             (Some '';'') p)"

text \<open>The final test of a clause: \<^verbatim>\<open>if self.symbol.type == self.scanner.SEMICOLON: ...\<close>.\<close>

definition semicolon :: "'k parser \<Rightarrow> 'k parser" where
  "semicolon p =
     (if type (symbol p) = SEMICOLON then next_symbol p
      else error (''Expected ';'' @ [CHR 0x27]) None p)"

text \<open>\<^verbatim>\<open>__device\<close>: the clause up to its semicolon (\<open>device_clause\<close>), then the semicolon.\<close>

definition device_clause :: "'k kernel_ops \<Rightarrow> 'k parser \<Rightarrow> 'k parser" where
  "device_clause ops p =
     (let (ok, p1) = devicename (p\<lparr>cur_device_name_list := []\<rparr>) in
      if ok then
        (let (valid_device_list, p3) = device_names_loop True p1 in
         if valid_device_list then
           (if type (symbol p3) = EQUALS then device_kind ops (next_symbol p3)
            else error (''Expected '=' or ','' @ [CHR 0x27]) (Some '';'') p3)
         else p3)
      else p1)"

definition device :: "'k kernel_ops \<Rightarrow> 'k parser \<Rightarrow> 'k parser" where
  "device ops p = semicolon (device_clause ops p)"

lemma follows_make_devices: "follows p q \<Longrightarrow> follows p (make_devices make_device q)"
  by (auto simp: make_devices_def follows_def pending_def split_beta Let_def)

lemma follows_device_names_loop:
  "follows p q \<Longrightarrow> follows p (snd (device_names_loop valid q))"
proof (induction valid q rule: device_names_loop.induct)
  case (1 valid q)
  show ?case
  proof (cases "type (symbol q) = COMMA \<and> type (symbol q) \<noteq> EOF \<and> valid")
    case True
    obtain v q' where d: "devicename (next_symbol q) = (v, q')"
      by (cases "devicename (next_symbol q)")
    from "1.prems" have "follows p (snd (devicename (next_symbol q)))"
      by (intro follows_devicename follows_next_symbol)
    with d have "follows p q'" by simp
    with "1.IH" [OF True refl d [symmetric]]
    have "follows p (snd (device_names_loop v q'))" .
    moreover from True d
    have "device_names_loop valid q = device_names_loop v q'"
      by (subst device_names_loop.simps) simp
    ultimately show ?thesis by simp
  next
    case False
    then have "device_names_loop valid q = (valid, q)"
      by (subst device_names_loop.simps) auto
    with "1.prems" show ?thesis by simp
  qed
qed

lemma follows_device_kind: "follows p q \<Longrightarrow> follows p (device_kind ops q)"
  by (simp add: device_kind_def Let_def And_def nand_def nor_def oor_def
      follows_make_devices follows_clock follows_switch follows_gate_inputs
      follows_next_symbol follows_error)

lemma follows_semicolon: "follows p q \<Longrightarrow> follows p (semicolon q)"
  by (simp add: semicolon_def follows_next_symbol follows_error)

lemma follows_device_clause: "follows p q \<Longrightarrow> follows p (device_clause ops q)"
  by (simp add: device_clause_def Let_def split_beta follows_device_kind
      follows_error follows_next_symbol follows_device_names_loop follows_devicename)

lemma follows_device: "follows p q \<Longrightarrow> follows p (device ops q)"
  by (simp add: device_def follows_semicolon follows_device_clause)

text \<open>\<^verbatim>\<open>__point\<close>: a device name, then either a dot and a pin name, or the placeholder
  symbol for the pin.\<close>

definition point :: "'k parser \<Rightarrow> bool \<times> 'k parser" where
  "point p =
     (let (ok, p1) = devicename p in
      if ok then
        (if type (symbol p1) = DOT then pinname (next_symbol p1)
         else (True, p1\<lparr>cur_pin_name_list := cur_pin_name_list p1 @ [None]\<rparr>))
      else (False, p1))"

text \<open>The \<^verbatim>\<open>while\<close> loop of \<^verbatim>\<open>__con\<close> over the destinations after a comma.\<close>

function points_loop :: "'k parser \<Rightarrow> 'k parser" where
  "points_loop p =
     (if type (symbol p) = COMMA \<and> type (symbol p) \<noteq> EOF
      then points_loop (snd (point (next_symbol p)))
      else p)"
  by pat_completeness auto
termination
proof (relation "measure pending")
  show "wf (measure (pending :: 'k parser \<Rightarrow> nat))" by simp
next
  fix p :: "'k parser"
  assume c: "type (symbol p) = COMMA \<and> type (symbol p) \<noteq> EOF"
  have "follows (next_symbol p) (snd (point (next_symbol p)))"
    by (simp add: point_def split_beta follows_pinname follows_next_symbol
        follows_devicename follows_refl)
  then have "pending (snd (point (next_symbol p))) \<le> pending (next_symbol p)"
    by (simp add: follows_def)
  moreover from c have "pending (next_symbol p) < pending p"
    by (simp add: pending_next_symbol)
  ultimately show "(snd (point (next_symbol p)), p) \<in> measure pending"
    by simp
qed

declare points_loop.simps [simp del]

text \<open>\<^verbatim>\<open>__error\<close> called with an element of \<open>cur_pin_name_list\<close>, which may be the
  placeholder: \<^verbatim>\<open>print_error\<close> then subtracts \<^verbatim>\<open>None\<close> from the line offsets, a
  \<^verbatim>\<open>TypeError\<close> unless the file has no line at all (no offset to subtract from; the
  message then does not depend on the symbol).\<close>

definition error_at_pin ::
  "string \<Rightarrow> symbol option \<Rightarrow> 'k parser \<Rightarrow> py_error + 'k parser" where
  "error_at_pin message pin p =
     (case pin of
        Some s \<Rightarrow> Inr (error_at message None s p)
      | None \<Rightarrow>
          if line_lengths (scanner p) = [] then Inr (error_at message None (symbol p) p)
          else Inl TypeError)"

text \<open>The source of a connection as \<^verbatim>\<open>__con\<close> keeps it in local variables:
  \<^verbatim>\<open>out_device_sym\<close>, \<^verbatim>\<open>out_pin_sym\<close>, \<^verbatim>\<open>out_device_id\<close>, \<^verbatim>\<open>out_pin_id\<close>; \<open>None\<close> while
  they are unbound.\<close>

type_synonym out_point = "(symbol \<times> symbol option \<times> nat option \<times> nat option) option"

text \<open>The \<^verbatim>\<open>for i in range(len(cur_in_device_ids))\<close> loop of \<^verbatim>\<open>__con\<close>, from index \<open>i\<close>
  with the device IDs still to connect.\<close>

fun connect_loop ::
  "'k kernel_ops \<Rightarrow> out_point \<Rightarrow> nat option list \<Rightarrow> nat \<Rightarrow> nat option list \<Rightarrow>
   'k parser \<Rightarrow> py_error + 'k parser" where
  "connect_loop ops out cur_in_pin_ids i [] p = Inr p"
| "connect_loop ops out cur_in_pin_ids i (in_dev_id # rest) p =
     (if length cur_in_pin_ids \<le> i then Inl IndexError
      else
        (case out of
           None \<Rightarrow> Inl UnboundLocalError
         | Some (out_device_sym, out_pin_sym, out_device_id, out_pin_id) \<Rightarrow>
             (let (err, names1, k) =
                    make_connection ops out_device_id out_pin_id in_dev_id
                      (cur_in_pin_ids ! i) (names (scanner p), kernel p);
                  p1 = p\<lparr>scanner := (scanner p)\<lparr>names := names1\<rparr>, kernel := k\<rparr>;
                  message = network_error_message ops err
              in if err \<noteq> NO_ERROR then
                   (if err = INPUT_CONNECTED \<or> err = PORT_ABSENT_2 then
                      (if length (cur_pin_name_list p1) \<le> i then Inl IndexError
                       else error_at_pin message (cur_pin_name_list p1 ! i) p1)
                    else if err = DEVICE_ABSENT_2 then
                      (if length (cur_device_name_list p1) \<le> i then Inl IndexError
                       else Inr (error_at message None (cur_device_name_list p1 ! i) p1))
                    else if err = DEVICE_ABSENT_1 then
                      Inr (error_at message None out_device_sym p1)
                    else if err = PORT_ABSENT_1 then
                      error_at_pin message out_pin_sym p1
                    else
                      (case cur_arrow p1 of
                         None \<Rightarrow> Inl AttributeError
                       | Some arrow \<Rightarrow> Inr (error_at message None arrow p1)))
                 else connect_loop ops out cur_in_pin_ids (i + 1) rest p1)))"

text \<open>\<^verbatim>\<open>__con\<close>, in three parts: the points (\<open>con_points\<close>: the source, then with
  \<open>con_destinations\<close> the arrow and the destinations), the connections (\<open>con_connect\<close>),
  the semicolon.\<close>

definition con_destinations :: "'k parser \<Rightarrow> 'k parser" where
  "con_destinations p =
     (if type (symbol p) = ARROW then
        (let p1 = points_loop (snd (point (next_symbol (p\<lparr>cur_arrow := Some (symbol p)\<rparr>))))
         in if type (symbol p1) \<noteq> SEMICOLON then
              (if type (symbol p1) = BRACE_RIGHT
               then error (''Expected ';'' @ [CHR 0x27]) None (p1\<lparr>skip := True\<rparr>)
               else error (''Expected '.' or ',' or ';'' @ [CHR 0x27]) (Some '';'') p1)
            else p1)
      else error (''Expected '>'' @ [CHR 0x27]) (Some '';'') p)"

definition con_points :: "'k parser \<Rightarrow> py_error + out_point \<times> 'k parser" where
  "con_points p =
     (let (ok, p1) = point (p\<lparr>cur_device_name_list := [], cur_pin_name_list := []\<rparr>) in
      if ok then
        (if \<not> error_flag p1 then
           (case (cur_device_name_list p1, cur_pin_name_list p1) of
              (out_device_sym # _, out_pin_sym # _) \<Rightarrow>
                Inr (Some (out_device_sym, out_pin_sym,
                           query (names (scanner p1)) (Some (string out_device_sym)),
                           query (names (scanner p1)) (map_option string out_pin_sym)),
                     con_destinations
                       (p1\<lparr>cur_device_name_list := [], cur_pin_name_list := []\<rparr>))
            | _ \<Rightarrow> Inl IndexError)
         else Inr (None, con_destinations p1))
      else Inr (None, p1))"

definition con_connect :: "'k kernel_ops \<Rightarrow> out_point \<Rightarrow> 'k parser \<Rightarrow> py_error + 'k parser" where
  "con_connect ops out p =
     (if \<not> error_flag p then
        (let cur_in_device_ids =
               map (\<lambda>dev. query (names (scanner p)) (Some (string dev)))
                 (cur_device_name_list p);
             cur_in_pin_ids =
               map (\<lambda>dev. query (names (scanner p)) (map_option string dev))
                 (cur_pin_name_list p)
         in connect_loop ops out cur_in_pin_ids 0 cur_in_device_ids p)
      else Inr p)"

definition con :: "'k kernel_ops \<Rightarrow> 'k parser \<Rightarrow> py_error + 'k parser" where
  "con ops p =
     (case con_points p of
        Inl e \<Rightarrow> Inl e
      | Inr (out, p1) \<Rightarrow>
          (case con_connect ops out p1 of
             Inl e \<Rightarrow> Inl e
           | Inr p2 \<Rightarrow>
               Inr ((if \<not> skip p2 then semicolon p2 else p2)\<lparr>skip := False\<rparr>)))"

text \<open>\<^verbatim>\<open>__monitor\<close>: the point, the monitor (\<open>monitor_make\<close>, the
  \<^verbatim>\<open>if not self.error_:\<close> block), the semicolon.\<close>

definition monitor_make :: "'k kernel_ops \<Rightarrow> 'k parser \<Rightarrow> py_error + 'k parser" where
  "monitor_make ops p =
     (if \<not> error_flag p then
        (case (cur_device_name_list p, cur_pin_name_list p) of
           (device_sym # _, pin_sym # _) \<Rightarrow>
             (let (err, names1, k) =
                    make_monitor ops
                      (query (names (scanner p)) (Some (string device_sym)))
                      (query (names (scanner p)) (map_option string pin_sym))
                      (names (scanner p), kernel p);
                  p1 = p\<lparr>scanner := (scanner p)\<lparr>names := names1\<rparr>, kernel := k\<rparr>
              in Inr (if err \<noteq> MONITOR_NO_ERROR
                      then error (monitors_error_message ops err) None p1
                      else p1))
         | _ \<Rightarrow> Inl IndexError)
      else Inr p)"

definition monitor :: "'k kernel_ops \<Rightarrow> 'k parser \<Rightarrow> py_error + 'k parser" where
  "monitor ops p =
     (case monitor_make ops
             (snd (point (p\<lparr>cur_device_name_list := [], cur_pin_name_list := []\<rparr>))) of
        Inl e \<Rightarrow> Inl e
      | Inr p1 \<Rightarrow> Inr (semicolon p1))"

text \<open>\<^verbatim>\<open>self.check_symbol = self.scanner.get_symbol()\<close>: the symbol read ahead, and the parser
  after reading it (the current symbol stays).\<close>

definition read_check_symbol :: "'k parser \<Rightarrow> symbol \<times> 'k parser" where
  "read_check_symbol p =
     (let (s, printed, sc') = get_symbol (scanner p)
      in (s, p\<lparr>check_symbol := Some s, scanner := sc', stdout := stdout p @ printed\<rparr>))"

text \<open>What the list loops do when the keyword of the next section, read ahead, is followed
  by a brace: the closing brace is reported missing and the brace read ahead becomes the
  current symbol.\<close>

definition missing_brace :: "symbol \<Rightarrow> 'k parser \<Rightarrow> 'k parser" where
  "missing_brace s p = (error (''Expected '}'' @ [CHR 0x27]) None (p\<lparr>skip := True\<rparr>))\<lparr>symbol := s\<rparr>"

text \<open>... and when it is not: the keyword was used as a name.\<close>

definition keyword_as_name :: "'k parser \<Rightarrow> 'k parser" where
  "keyword_as_name p =
     next_symbol
       (error (''Device names cannot be Keywords: 'CIRCUIT', 'DEVICES','' @ '' 'CONNECT', 'MONITOR', 'END','CLOCK', 'SWITCH', 'AND', 'NAND','' @ '' 'OR', 'NOR', 'XOR', 'NOT' 'DTYPE'' @ [CHR 0x27])
          (Some '';'') p)"

text \<open>The \<^verbatim>\<open>while\<close> loop of \<^verbatim>\<open>__devicelist\<close>; the result carries \<^verbatim>\<open>right_brace\<close>.\<close>

partial_function (option) devicelist_loop ::
  "'k kernel_ops \<Rightarrow> 'k parser \<Rightarrow> (bool \<times> 'k parser) option" where
  "devicelist_loop ops p =
     (if type (symbol p) \<noteq> BRACE_RIGHT \<and> type (symbol p) \<noteq> EOF then
        (if symbol_id (symbol p) = Some (CONNECT_ID (scanner p)) then
           (let (s, p1) = read_check_symbol p in
            if type s = BRACE_LEFT then Some (False, missing_brace s p1)
            else devicelist_loop ops (device ops (keyword_as_name p1)))
         else devicelist_loop ops (device ops p))
      else Some (True, p))"

declare devicelist_loop.simps [code]

definition devicelist :: "'k kernel_ops \<Rightarrow> 'k parser \<Rightarrow> 'k parser option" where
  "devicelist ops p =
     (let p1 = (if type (symbol p) = KEYWORD \<and> symbol_id (symbol p) = Some (DEVICES_ID (scanner p))
                then next_symbol p
                else error (''Expected 'DEVICES'' @ [CHR 0x27]) (Some ''{'') p);
          p2 = (if type (symbol p1) = BRACE_LEFT then next_symbol p1
                else error (''Expected '{'' @ [CHR 0x27]) None p1)
      in case devicelist_loop ops (device ops p2) of
           None \<Rightarrow> None
         | Some (right_brace, p3) \<Rightarrow> Some (if right_brace then next_symbol p3 else p3))"

text \<open>The \<^verbatim>\<open>while\<close> loop of \<^verbatim>\<open>__connectionlist\<close>.\<close>

partial_function (option) connectionlist_loop ::
  "'k kernel_ops \<Rightarrow> 'k parser \<Rightarrow> (py_error + bool \<times> 'k parser) option" where
  "connectionlist_loop ops p =
     (if type (symbol p) \<noteq> BRACE_RIGHT \<and> type (symbol p) \<noteq> EOF then
        (if symbol_id (symbol p) = Some (MONITOR_ID (scanner p)) then
           (let (s, p1) = read_check_symbol p in
            if type s = BRACE_LEFT then Some (Inr (False, missing_brace s p1))
            else (case con ops (keyword_as_name p1) of
                    Inl e \<Rightarrow> Some (Inl e)
                  | Inr p2 \<Rightarrow> connectionlist_loop ops p2))
         else (case con ops p of
                 Inl e \<Rightarrow> Some (Inl e)
               | Inr p2 \<Rightarrow> connectionlist_loop ops p2))
      else Some (Inr (True, p)))"

declare connectionlist_loop.simps [code]

text \<open>The end of \<^verbatim>\<open>__connectionlist\<close>, after the loop: the check for unconnected inputs,
  reported at the \<^verbatim>\<open>CONNECT\<close> symbol, and the closing brace.\<close>

definition connectionlist_end ::
  "'k kernel_ops \<Rightarrow> symbol \<Rightarrow> bool \<Rightarrow> 'k parser \<Rightarrow> 'k parser" where
  "connectionlist_end ops connect_Symbol right_brace p =
     (let p1 = (if \<not> error_flag p then
                  (let unconnected = check_network ops (names (scanner p), kernel p)
                   in if unconnected \<noteq> []
                      then error_at (''unconnected inputs: '' @ unconnected) None connect_Symbol p
                      else p)
                else p)
      in if right_brace then next_symbol p1 else p1)"

definition connectionlist :: "'k kernel_ops \<Rightarrow> 'k parser \<Rightarrow> (py_error + 'k parser) option" where
  "connectionlist ops p =
     (let connect_Symbol = symbol p;
          p1 = (if \<not> skip p then
                  (if type (symbol p) = KEYWORD \<and>
                      symbol_id (symbol p) = Some (CONNECT_ID (scanner p))
                   then next_symbol p
                   else error (''Expected 'CONNECT'' @ [CHR 0x27]) (Some ''{'') p)
                else p);
          p2 = p1\<lparr>skip := False\<rparr>;
          p3 = (if type (symbol p2) = BRACE_LEFT then next_symbol p2
                else error (''Expected '{'' @ [CHR 0x27]) None p2)
      in case con ops p3 of
           Inl e \<Rightarrow> Some (Inl e)
         | Inr p4 \<Rightarrow>
             (case connectionlist_loop ops p4 of
                None \<Rightarrow> None
              | Some (Inl e) \<Rightarrow> Some (Inl e)
              | Some (Inr (right_brace, p5)) \<Rightarrow>
                  Some (Inr (connectionlist_end ops connect_Symbol right_brace p5))))"

text \<open>The \<^verbatim>\<open>while\<close> loop of \<^verbatim>\<open>__monitorlist\<close>.\<close>

partial_function (option) monitorlist_loop ::
  "'k kernel_ops \<Rightarrow> 'k parser \<Rightarrow> (py_error + bool \<times> 'k parser) option" where
  "monitorlist_loop ops p =
     (if type (symbol p) \<noteq> BRACE_RIGHT \<and> type (symbol p) \<noteq> EOF then
        (if symbol_id (symbol p) = Some (END_ID (scanner p))
         then Some (Inr (False, error (''Expected '}'' @ [CHR 0x27]) None p))
         else (case monitor ops p of
                 Inl e \<Rightarrow> Some (Inl e)
               | Inr p1 \<Rightarrow> monitorlist_loop ops p1))
      else Some (Inr (True, p)))"

declare monitorlist_loop.simps [code]

definition monitorlist :: "'k kernel_ops \<Rightarrow> 'k parser \<Rightarrow> (py_error + 'k parser) option" where
  "monitorlist ops p =
     (let p1 = (if \<not> skip p then
                  (if type (symbol p) = KEYWORD \<and>
                      symbol_id (symbol p) = Some (MONITOR_ID (scanner p))
                   then next_symbol p
                   else error (''Expected 'MONITOR'' @ [CHR 0x27]) (Some ''{'') p)
                else p);
          p2 = p1\<lparr>skip := False\<rparr>
      in if type (symbol p2) = BRACE_LEFT then
           (case monitor ops (next_symbol p2) of
              Inl e \<Rightarrow> Some (Inl e)
            | Inr p3 \<Rightarrow>
                (case monitorlist_loop ops p3 of
                   None \<Rightarrow> None
                 | Some (Inl e) \<Rightarrow> Some (Inl e)
                 | Some (Inr (right_brace, p4)) \<Rightarrow>
                     Some (Inr (if right_brace then next_symbol p4 else p4))))
         else Some (Inr (error (''Expected '{'' @ [CHR 0x27]) None p2)))"

text \<open>\<^verbatim>\<open>__circuit\<close> and \<^verbatim>\<open>parse_network\<close>. The result of \<^verbatim>\<open>parse_network\<close> is \<open>None\<close> if it
  does not return, an exception if it raises one, and otherwise the value returned with
  the parser as it is left.\<close>

definition circuit :: "'k kernel_ops \<Rightarrow> 'k parser \<Rightarrow> (py_error + 'k parser) option" where
  "circuit ops p =
     (let p1 = (if type (symbol p) = KEYWORD \<and> symbol_id (symbol p) = Some (CIRCUIT_ID (scanner p))
                then next_symbol p
                else error (''Expected 'CIRCUIT'' @ [CHR 0x27]) (Some ''{'') p);
          p2 = (if type (symbol p1) = BRACE_LEFT then next_symbol p1
                else error (''Expected '{'' @ [CHR 0x27]) None p1)
      in case devicelist ops p2 of
           None \<Rightarrow> None
         | Some p3 \<Rightarrow>
             (case connectionlist ops p3 of
                None \<Rightarrow> None
              | Some (Inl e) \<Rightarrow> Some (Inl e)
              | Some (Inr p4) \<Rightarrow>
                  (case monitorlist ops p4 of
                     None \<Rightarrow> None
                   | Some (Inl e) \<Rightarrow> Some (Inl e)
                   | Some (Inr p5) \<Rightarrow>
                       Some (Inr (if type (symbol p5) = BRACE_RIGHT then next_symbol p5
                                  else error (''Expected '}'' @ [CHR 0x27]) None p5)))))"

definition parse_network ::
  "'k kernel_ops \<Rightarrow> 'k parser \<Rightarrow> (py_error + bool \<times> 'k parser) option" where
  "parse_network ops p =
     (case circuit ops p of
        None \<Rightarrow> None
      | Some (Inl e) \<Rightarrow> Some (Inl e)
      | Some (Inr p1) \<Rightarrow>
          (let p2 = (if type (symbol p1) = KEYWORD \<and>
                        symbol_id (symbol p1) = Some (END_ID (scanner p1))
                     then next_symbol p1
                     else error (''Expected 'END'' @ [CHR 0x27]) (Some '';'') p1);
               p3 = p2\<lparr>error_msg := error_msg p2 @ [newline, newline]
                                      @ ''Error Count: '' @ str (error_count p2),
                        stdout := stdout p2 @ [''Error Count: '' @ str (error_count p2)]\<rparr>
           in Some (Inr (\<not> error_flag p3, p3))))"

lemma follows_point: "follows p q \<Longrightarrow> follows p (snd (point q))"
  by (simp add: point_def split_beta follows_pinname follows_next_symbol follows_devicename)

lemma follows_points_loop: "follows p q \<Longrightarrow> follows p (points_loop q)"
proof (induction q rule: points_loop.induct)
  case (1 q)
  show ?case
  proof (cases "type (symbol q) = COMMA \<and> type (symbol q) \<noteq> EOF")
    case True
    from "1.prems" have "follows p (snd (point (next_symbol q)))"
      by (intro follows_point follows_next_symbol)
    with "1.IH" [OF True] have "follows p (points_loop (snd (point (next_symbol q))))" .
    moreover from True have "points_loop q = points_loop (snd (point (next_symbol q)))"
      by (subst points_loop.simps) simp
    ultimately show ?thesis by simp
  next
    case False
    then have "points_loop q = q" by (subst points_loop.simps) auto
    with "1.prems" show ?thesis by simp
  qed
qed

lemma follows_kernel_call:
  "follows p q \<Longrightarrow> \<not> error_flag q \<Longrightarrow>
   follows p (q\<lparr>scanner := (scanner q)\<lparr>names := n\<rparr>, kernel := k\<rparr>)"
  by (auto simp: follows_def pending_def)

lemma follows_error_at_pin:
  "follows p q \<Longrightarrow> error_at_pin message pin q = Inr r \<Longrightarrow> follows p r"
  by (auto simp: error_at_pin_def follows_error_at split: option.splits if_splits)

lemma follows_connect_loop:
  "follows p q \<Longrightarrow> \<not> error_flag q \<Longrightarrow> connect_loop ops out pins i devs q = Inr r \<Longrightarrow>
   follows p r"
proof (induction devs arbitrary: i q)
  case Nil
  then show ?case by simp
next
  case (Cons d devs)
  from Cons.prems(3) obtain s1 s2 i1 i2 where out: "out = Some (s1, s2, i1, i2)"
    by (cases out) (auto split: if_splits)
  let ?c = "make_connection ops i1 i2 d (pins ! i) (names (scanner q), kernel q)"
  let ?q1 = "q\<lparr>scanner := (scanner q)\<lparr>names := fst (snd ?c)\<rparr>, kernel := snd (snd ?c)\<rparr>"
  have f: "follows p ?q1" using Cons.prems(1,2) by (rule follows_kernel_call)
  have e: "\<not> error_flag ?q1" using Cons.prems(2) by simp
  show ?case
  proof (cases "fst ?c = NO_ERROR")
    case True
    with Cons.prems(3) out have "connect_loop ops out pins (i + 1) devs ?q1 = Inr r"
      by (simp add: split_beta Let_def split: if_splits)
    with Cons.IH [OF f e] show ?thesis .
  next
    case False
    with Cons.prems(3) out f show ?thesis
      by (auto simp: split_beta Let_def follows_error_at
          split: if_splits option.splits dest: follows_error_at_pin)
  qed
qed

lemma follows_con_connect:
  "follows p q \<Longrightarrow> con_connect ops out q = Inr r \<Longrightarrow> follows p r"
  by (auto simp: con_connect_def Let_def split: if_splits dest: follows_connect_loop)

lemma follows_con_destinations: "follows p q \<Longrightarrow> follows p (con_destinations q)"
  by (simp add: con_destinations_def Let_def follows_error follows_points_loop follows_point
      follows_next_symbol)

lemma follows_con_points:
  "follows p q \<Longrightarrow> con_points q = Inr (out, r) \<Longrightarrow> follows p r"
proof -
  assume a: "follows p q" and c: "con_points q = Inr (out, r)"
  let ?p1 = "snd (point (q\<lparr>cur_device_name_list := [], cur_pin_name_list := []\<rparr>))"
  have p1: "follows p ?p1" using a by (intro follows_point) simp
  from c show ?thesis
    using p1 follows_con_destinations [of p ?p1]
      follows_con_destinations [of p "?p1\<lparr>cur_device_name_list := [], cur_pin_name_list := []\<rparr>"]
    by (auto simp: con_points_def split_beta Let_def split: if_splits list.splits)
qed

lemma follows_con: "follows p q \<Longrightarrow> con ops q = Inr r \<Longrightarrow> follows p r"
proof -
  assume a: "follows p q" and c: "con ops q = Inr r"
  from c obtain out p1 p2 where 1: "con_points q = Inr (out, p1)"
    and 2: "con_connect ops out p1 = Inr p2"
    and r: "r = (if \<not> skip p2 then semicolon p2 else p2)\<lparr>skip := False\<rparr>"
    by (auto simp: con_def split: sum.splits)
  from a 1 have "follows p p1" by (rule follows_con_points)
  from this 2 have "follows p p2" by (rule follows_con_connect)
  then show ?thesis unfolding r by (simp add: follows_semicolon)
qed

lemma follows_monitor_make:
  "follows p q \<Longrightarrow> monitor_make ops q = Inr r \<Longrightarrow> follows p r"
  by (auto simp: monitor_make_def Let_def split_beta follows_kernel_call follows_error
      split: if_splits list.splits)

lemma follows_monitor: "follows p q \<Longrightarrow> monitor ops q = Inr r \<Longrightarrow> follows p r"
proof -
  assume a: "follows p q" and m: "monitor ops q = Inr r"
  let ?p1 = "snd (point (q\<lparr>cur_device_name_list := [], cur_pin_name_list := []\<rparr>))"
  have p1: "follows p ?p1" using a by (intro follows_point) simp
  from m obtain p3 where r: "r = semicolon p3" and p3: "monitor_make ops ?p1 = Inr p3"
    by (auto simp: monitor_def split: sum.splits)
  from p1 p3 have "follows p p3" by (rule follows_monitor_make)
  then show ?thesis unfolding r by (rule follows_semicolon)
qed

lemma follows_read_check_symbol: "follows p q \<Longrightarrow> follows p (snd (read_check_symbol q))"
proof -
  assume a: "follows p q"
  have "pending (snd (read_check_symbol q)) \<le> pending q"
    using get_symbol_remaining [of "scanner q"]
    by (simp add: read_check_symbol_def pending_def split_beta)
  then show ?thesis using a
    by (auto simp: follows_def read_check_symbol_def split_beta)
qed

lemma follows_keyword_as_name: "follows p q \<Longrightarrow> follows p (keyword_as_name q)"
  by (simp add: keyword_as_name_def follows_next_symbol follows_error)

lemma follows_connectionlist_end:
  "follows p q \<Longrightarrow> follows p (connectionlist_end ops s right_brace q)"
  by (simp add: connectionlist_end_def Let_def follows_next_symbol follows_error_at)

section \<open>Every clause consumes a symbol\<close>

lemma next_symbol_fields [simp]:
  "error_flag (next_symbol p) = error_flag p"
  "error_count (next_symbol p) = error_count p"
  "skip (next_symbol p) = skip p"
  "kernel (next_symbol p) = kernel p"
  "error_msg (next_symbol p) = error_msg p"
  "cur_attribute (next_symbol p) = cur_attribute p"
  "cur_device_name_list (next_symbol p) = cur_device_name_list p"
  "cur_pin_name_list (next_symbol p) = cur_pin_name_list p"
  "cur_arrow (next_symbol p) = cur_arrow p"
  by (simp_all add: next_symbol_def split_beta)

lemma error_loop_fields [simp]:
  "error_flag (error_loop st p) = error_flag p"
  "error_count (error_loop st p) = error_count p"
  "skip (error_loop st p) = skip p"
  "kernel (error_loop st p) = kernel p"
  "error_msg (error_loop st p) = error_msg p"
  "cur_attribute (error_loop st p) = cur_attribute p"
  "cur_device_name_list (error_loop st p) = cur_device_name_list p"
  "cur_pin_name_list (error_loop st p) = cur_pin_name_list p"
  "cur_arrow (error_loop st p) = cur_arrow p"
  by (induction st p rule: error_loop.induct; subst error_loop.simps; simp)+

lemma error_at_fields [simp]:
  "error_flag (error_at message stop s p)"
  "error_count (error_at message stop s p) = error_count p + 1"
  "skip (error_at message stop s p) = skip p"
  "kernel (error_at message stop s p) = kernel p"
  "cur_attribute (error_at message stop s p) = cur_attribute p"
  "cur_device_name_list (error_at message stop s p) = cur_device_name_list p"
  "cur_pin_name_list (error_at message stop s p) = cur_pin_name_list p"
  "cur_arrow (error_at message stop s p) = cur_arrow p"
  "error_msg (error_at message stop s p) =
     error_msg p @ [newline, newline] @ fst (print_error (scanner p) s message)"
  by (cases stop; simp add: error_at_unfold Let_def)+

lemma error_fields [simp]:
  "error_flag (error message stop p)"
  "error_count (error message stop p) = error_count p + 1"
  "skip (error message stop p) = skip p"
  "kernel (error message stop p) = kernel p"
  "cur_attribute (error message stop p) = cur_attribute p"
  "cur_device_name_list (error message stop p) = cur_device_name_list p"
  "cur_pin_name_list (error message stop p) = cur_pin_name_list p"
  "cur_arrow (error message stop p) = cur_arrow p"
  "error_msg (error message stop p) =
     error_msg p @ [newline, newline] @ fst (print_error (scanner p) (symbol p) message)"
  by (simp_all add: error_def)

lemma pending_update [simp]:
  "pending (q\<lparr>skip := b\<rparr>) = pending q"
  "pending (q\<lparr>cur_attribute := a\<rparr>) = pending q"
  "pending (q\<lparr>error_msg := m\<rparr>) = pending q"
  "pending (q\<lparr>cur_device_name_list := ds\<rparr>) = pending q"
  "pending (q\<lparr>cur_pin_name_list := ps\<rparr>) = pending q"
  "pending (q\<lparr>cur_arrow := ar\<rparr>) = pending q"
  "pending (q\<lparr>check_symbol := cs\<rparr>) = pending q"
  "pending (q\<lparr>stdout := out\<rparr>) = pending q"
  "pending (q\<lparr>error_flag := e\<rparr>) = pending q"
  "pending (q\<lparr>error_count := c\<rparr>) = pending q"
  "pending (q\<lparr>kernel := k\<rparr>) = pending q"
  by (simp_all add: pending_def)

lemma next_symbol_update:
  "next_symbol (q\<lparr>cur_device_name_list := ds\<rparr>) = (next_symbol q)\<lparr>cur_device_name_list := ds\<rparr>"
  "next_symbol (q\<lparr>cur_pin_name_list := ps\<rparr>) = (next_symbol q)\<lparr>cur_pin_name_list := ps\<rparr>"
  "next_symbol (q\<lparr>cur_arrow := ar\<rparr>) = (next_symbol q)\<lparr>cur_arrow := ar\<rparr>"
  "next_symbol (q\<lparr>skip := b\<rparr>) = (next_symbol q)\<lparr>skip := b\<rparr>"
  by (simp_all add: next_symbol_def split_beta)

text \<open>\<open>halted st q r\<close>: from \<open>q\<close>, the parser either consumed a symbol or stands where it
  stood, at the stopping symbol \<open>st\<close> or the end of the file.\<close>

definition halted :: "string \<Rightarrow> 'k parser \<Rightarrow> 'k parser \<Rightarrow> bool" where
  "halted st q r =
     (pending r < pending q \<or>
      (pending r = pending q \<and> symbol r = symbol q \<and>
       (string (symbol q) = st \<or> type (symbol q) = EOF)))"

lemma error_loop_halted: "halted st q (error_loop st q)"
proof (cases "string (symbol q) \<noteq> st \<and> type (symbol q) \<noteq> EOF")
  case True
  have "follows (next_symbol q) (error_loop st (next_symbol q))"
    by (rule follows_error_loop) (rule follows_refl)
  then have "pending (error_loop st (next_symbol q)) \<le> pending (next_symbol q)"
    by (simp add: follows_def)
  moreover from True have "pending (next_symbol q) < pending q"
    by (simp add: pending_next_symbol)
  moreover from True have "error_loop st q = error_loop st (next_symbol q)"
    by (subst error_loop.simps) simp
  ultimately show ?thesis by (simp add: halted_def)
next
  case False
  then have "error_loop st q = q" by (subst error_loop.simps) auto
  with False show ?thesis by (auto simp: halted_def)
qed

lemma halted_update [simp]:
  "halted st (q\<lparr>cur_device_name_list := ds\<rparr>) r = halted st q r"
  "halted st (q\<lparr>cur_pin_name_list := ps\<rparr>) r = halted st q r"
  "halted st q (r\<lparr>error_msg := m\<rparr>) = halted st q r"
  by (simp_all add: halted_def pending_def)

lemma error_halted: "halted st q (error message (Some st) q)"
proof -
  let ?q2 = "q\<lparr>error_flag := True, error_count := error_count q + 1, scanner := scanner q,
               stdout := stdout q @ fst (snd (print_error (scanner q) (symbol q) message))\<rparr>"
  have "halted st ?q2 (error_loop st ?q2)" by (rule error_loop_halted)
  then have "halted st q (error_loop st ?q2)" by (simp add: halted_def pending_def)
  then show ?thesis by (simp add: error_def error_at_unfold Let_def)
qed

lemma halted_follows: "halted st q r \<Longrightarrow> follows r r' \<Longrightarrow> pending r' \<le> pending q"
  by (auto simp: halted_def follows_def)

lemma semicolon_after:
  assumes wf: "wf_symbol (symbol q)" and ne: "type (symbol q) \<noteq> EOF"
    and h: "halted '';'' q r"
  shows "pending (semicolon r) < pending q"
proof (cases "pending r < pending q")
  case True
  have "follows r (semicolon r)" by (rule follows_semicolon) (rule follows_refl)
  then have "pending (semicolon r) \<le> pending r" by (simp add: follows_def)
  with True show ?thesis by simp
next
  case False
  with h ne have r: "pending r = pending q" "symbol r = symbol q" "string (symbol q) = '';''"
    by (auto simp: halted_def)
  with wf have "type (symbol r) = SEMICOLON" by (simp add: wf_symbol_def)
  then have "pending (semicolon r) < pending r"
    by (simp add: semicolon_def pending_next_symbol)
  with r show ?thesis by simp
qed

lemma name_halted:
  "type (symbol q) \<noteq> EOF \<Longrightarrow> kind = ''devicename'' \<or> kind = ''pinname'' \<Longrightarrow>
   (fst (name kind q) \<and> pending (snd (name kind q)) < pending q) \<or>
   (\<not> fst (name kind q) \<and> halted '';'' q (snd (name kind q)) \<and>
    error_flag (snd (name kind q)) \<and> skip (snd (name kind q)) = skip q)"
proof (cases "type (symbol q) = NAME")
  case True
  assume "type (symbol q) \<noteq> EOF"
  with pending_next_symbol [of q] have "pending (next_symbol q) < pending q" by simp
  with True show ?thesis by (simp add: name_def Let_def next_symbol_update)
next
  case False
  assume "kind = ''devicename'' \<or> kind = ''pinname''"
  with False show ?thesis by (auto simp: name_def error_halted)
qed

lemma device_clause_halted:
  assumes ne: "type (symbol q) \<noteq> EOF"
  shows "halted '';'' q (device_clause ops q)"
proof -
  let ?q0 = "q\<lparr>cur_device_name_list := []\<rparr>"
  from ne have ne0: "type (symbol ?q0) \<noteq> EOF" by simp
  from name_halted [OF ne0 disjI1 [OF refl]]
  show ?thesis
  proof
    assume a: "fst (name ''devicename'' ?q0) \<and> pending (snd (name ''devicename'' ?q0)) < pending ?q0"
    have "follows ?q0 (device_clause ops q)"
      unfolding device_clause_def
      by (simp add: Let_def split_beta follows_device_kind follows_error follows_next_symbol
          follows_device_names_loop follows_devicename follows_refl)
    moreover
    let ?p1 = "snd (devicename ?q0)"
    have "follows ?p1 (device_clause ops q)"
      using a unfolding device_clause_def
      by (simp add: Let_def split_beta devicename_def follows_device_kind follows_error
          follows_next_symbol follows_device_names_loop follows_refl)
    then have "pending (device_clause ops q) \<le> pending ?p1" by (simp add: follows_def)
    with a have "pending (device_clause ops q) < pending q"
      by (simp add: devicename_def pending_def)
    then show ?thesis by (simp add: halted_def)
  next
    assume "\<not> fst (name ''devicename'' ?q0) \<and> halted '';'' ?q0 (snd (name ''devicename'' ?q0)) \<and>
      error_flag (snd (name ''devicename'' ?q0)) \<and>
      skip (snd (name ''devicename'' ?q0)) = skip ?q0"
    then show ?thesis by (simp add: device_clause_def devicename_def split_beta)
  qed
qed

lemma device_progress:
  "wf_symbol (symbol q) \<Longrightarrow> type (symbol q) \<noteq> EOF \<Longrightarrow> pending (device ops q) < pending q"
  unfolding device_def by (rule semicolon_after) (simp_all add: device_clause_halted)

lemma point_halted:
  assumes ne: "type (symbol q) \<noteq> EOF"
  shows "pending (snd (point q)) < pending q \<or>
    (\<not> fst (point q) \<and> halted '';'' q (snd (point q)) \<and> error_flag (snd (point q)) \<and>
     skip (snd (point q)) = skip q)"
proof -
  from name_halted [OF ne disjI1 [OF refl]]
  show ?thesis
  proof
    assume a: "fst (name ''devicename'' q) \<and> pending (snd (name ''devicename'' q)) < pending q"
    let ?p1 = "snd (devicename q)"
    have "follows ?p1 (snd (point q))"
      by (simp add: point_def split_beta follows_pinname follows_next_symbol follows_refl)
    then have "pending (snd (point q)) \<le> pending ?p1" by (simp add: follows_def)
    with a show ?thesis by (simp add: devicename_def)
  next
    assume "\<not> fst (name ''devicename'' q) \<and> halted '';'' q (snd (name ''devicename'' q)) \<and>
      error_flag (snd (name ''devicename'' q)) \<and> skip (snd (name ''devicename'' q)) = skip q"
    then show ?thesis by (simp add: point_def devicename_def split_beta)
  qed
qed

lemma con_points_halted:
  assumes ne: "type (symbol q) \<noteq> EOF" and c: "con_points q = Inr (out, r)"
  shows "pending r < pending q \<or> (halted '';'' q r \<and> error_flag r \<and> skip r = skip q)"
proof -
  let ?q0 = "q\<lparr>cur_device_name_list := [], cur_pin_name_list := []\<rparr>"
  let ?p1 = "snd (point ?q0)"
  from ne have "type (symbol ?q0) \<noteq> EOF" by simp
  from point_halted [OF this]
  show ?thesis
  proof
    assume a: "pending ?p1 < pending ?q0"
    have "follows ?p1 ?p1" by (rule follows_refl)
    from follows_con_destinations [OF this]
    have 1: "pending (con_destinations ?p1) \<le> pending ?p1" by (simp add: follows_def)
    let ?p2 = "?p1\<lparr>cur_device_name_list := [], cur_pin_name_list := []\<rparr>"
    have "follows ?p1 ?p2" by (simp add: follows_refl)
    from follows_con_destinations [OF this]
    have 2: "pending (con_destinations ?p2) \<le> pending ?p1" by (simp add: follows_def)
    from c have "r = ?p1 \<or> r = con_destinations ?p1 \<or> r = con_destinations ?p2"
      by (auto simp: con_points_def split_beta split: if_splits list.splits)
    with a 1 2 have "pending r < pending q" by auto
    then show ?thesis ..
  next
    assume a: "\<not> fst (point ?q0) \<and> halted '';'' ?q0 ?p1 \<and> error_flag ?p1 \<and>
      skip ?p1 = skip ?q0"
    with c have "r = ?p1" by (simp add: con_points_def split_beta)
    with a show ?thesis by simp
  qed
qed

lemma con_progress:
  assumes wf: "wf_symbol (symbol q)" and ne: "type (symbol q) \<noteq> EOF"
    and sk: "\<not> skip q" and c: "con ops q = Inr r"
  shows "pending r < pending q"
proof -
  from c obtain out p1 p2 where 1: "con_points q = Inr (out, p1)"
    and 2: "con_connect ops out p1 = Inr p2"
    and r: "r = (if \<not> skip p2 then semicolon p2 else p2)\<lparr>skip := False\<rparr>"
    by (auto simp: con_def split: sum.splits)
  from con_points_halted [OF ne 1]
  show ?thesis
  proof
    assume a: "pending p1 < pending q"
    have "follows p1 p2" using follows_refl 2 by (rule follows_con_connect)
    then have "follows p1 (semicolon p2)" by (rule follows_semicolon)
    with \<open>follows p1 p2\<close> have "pending r \<le> pending p1"
      unfolding r by (simp add: follows_def)
    with a show ?thesis by simp
  next
    assume a: "halted '';'' q p1 \<and> error_flag p1 \<and> skip p1 = skip q"
    with 2 have "p2 = p1" by (simp add: con_connect_def)
    with a sk have "r = (semicolon p1)\<lparr>skip := False\<rparr>" unfolding r by simp
    with semicolon_after [OF wf ne] a show ?thesis by simp
  qed
qed

lemma con_skip: "con ops q = Inr r \<Longrightarrow> \<not> skip r"
  by (auto simp: con_def split: sum.splits)

lemma monitor_progress:
  assumes wf: "wf_symbol (symbol q)" and ne: "type (symbol q) \<noteq> EOF"
    and m: "monitor ops q = Inr r"
  shows "pending r < pending q"
proof -
  let ?q0 = "q\<lparr>cur_device_name_list := [], cur_pin_name_list := []\<rparr>"
  let ?p1 = "snd (point ?q0)"
  from m obtain p3 where r: "r = semicolon p3" and p3: "monitor_make ops ?p1 = Inr p3"
    by (auto simp: monitor_def split: sum.splits)
  from ne have "type (symbol ?q0) \<noteq> EOF" by simp
  from point_halted [OF this]
  show ?thesis
  proof
    assume a: "pending ?p1 < pending ?q0"
    have "follows ?p1 p3" using follows_refl p3 by (rule follows_monitor_make)
    then have "follows ?p1 r" unfolding r by (rule follows_semicolon)
    then have "pending r \<le> pending ?p1" by (simp add: follows_def)
    with a show ?thesis by simp
  next
    assume a: "\<not> fst (point ?q0) \<and> halted '';'' ?q0 ?p1 \<and> error_flag ?p1 \<and>
      skip ?p1 = skip ?q0"
    with p3 have "p3 = ?p1" by (simp add: monitor_make_def)
    with a semicolon_after [OF wf ne, of ?p1] show ?thesis unfolding r by simp
  qed
qed

section \<open>The parse returns\<close>

lemma follows_pending: "follows q r \<Longrightarrow> pending r \<le> pending q"
  by (simp add: follows_def)

lemma follows_wf: "follows q r \<Longrightarrow> wf_symbol (symbol q) \<Longrightarrow> wf_symbol (symbol r)"
  by (simp add: follows_def)

lemma read_check_symbol_symbol [simp]:
  "symbol (snd (read_check_symbol q)) = symbol q"
  "skip (snd (read_check_symbol q)) = skip q"
  by (simp_all add: read_check_symbol_def split_beta)

lemma follows_missing_brace:
  assumes ne: "type (symbol q) \<noteq> EOF"
  shows "follows q (missing_brace (fst (read_check_symbol q)) (snd (read_check_symbol q)))"
proof -
  let ?g = "get_symbol (scanner q)"
  let ?s = "fst ?g"
  let ?p1 = "snd (read_check_symbol q)"
  let ?e = "error (''Expected '}'' @ [CHR 0x27]) None (?p1\<lparr>skip := True\<rparr>)"
  have s: "fst (read_check_symbol q) = ?s" by (simp add: read_check_symbol_def split_beta)
  have sc: "scanner ?e = snd (snd ?g)"
    by (simp add: error_def error_at_unfold Let_def read_check_symbol_def split_beta)
  have "remaining (snd (snd ?g)) + (if type ?s = EOF then 0 else 1) \<le> remaining (scanner q) + 1"
    using get_symbol_remaining [of "scanner q"] by auto
  with ne sc have 1: "pending (?e\<lparr>symbol := ?s\<rparr>) \<le> pending q"
    by (simp add: pending_def)
  have 2: "wf_symbol (symbol (?e\<lparr>symbol := ?s\<rparr>))" by (simp add: get_symbol_wf)
  have "follows q ?e"
    by (intro follows_error) (simp add: follows_read_check_symbol follows_refl)
  with 1 2 show ?thesis
    unfolding missing_brace_def s by (simp add: follows_def)
qed

lemma keyword_as_name_progress:
  assumes ne: "type (symbol q) \<noteq> EOF"
  shows "pending (keyword_as_name (snd (read_check_symbol q))) < pending q"
proof -
  let ?p1 = "snd (read_check_symbol q)"
  let ?m = "(''Device names cannot be Keywords: 'CIRCUIT', 'DEVICES','' @ '' 'CONNECT', 'MONITOR', 'END','CLOCK', 'SWITCH', 'AND', 'NAND','' @ '' 'OR', 'NOR', 'XOR', 'NOT' 'DTYPE'' @ [CHR 0x27])"
  let ?e = "error ?m (Some '';'') ?p1"
  have "follows q ?p1" by (intro follows_read_check_symbol follows_refl)
  then have le: "pending ?p1 \<le> pending q" by (rule follows_pending)
  have h: "halted '';'' ?p1 ?e" by (rule error_halted)
  have "pending (next_symbol ?e) < pending ?p1"
  proof (cases "pending ?e < pending ?p1")
    case True
    have "follows ?e (next_symbol ?e)" by (intro follows_next_symbol follows_refl)
    then have "pending (next_symbol ?e) \<le> pending ?e" by (rule follows_pending)
    with True show ?thesis by simp
  next
    case False
    with h have "pending ?e = pending ?p1" "symbol ?e = symbol ?p1" by (auto simp: halted_def)
    with ne pending_next_symbol [of ?e] show ?thesis by simp
  qed
  with le show ?thesis by (simp add: keyword_as_name_def)
qed

lemma devicelist_loop_total:
  "wf_symbol (symbol q) \<Longrightarrow> \<exists>rb r. devicelist_loop ops q = Some (rb, r) \<and> follows q r"
proof (induction "pending q" arbitrary: q rule: less_induct)
  case less
  note wf = \<open>wf_symbol (symbol q)\<close>
  have step: "\<exists>rb r. devicelist_loop ops q' = Some (rb, r) \<and> follows q r"
    if "follows q q'" "pending q' < pending q" for q'
  proof -
    from that(1) wf have "wf_symbol (symbol q')" by (rule follows_wf)
    with less.hyps [OF that(2)] obtain rb r where
      "devicelist_loop ops q' = Some (rb, r)" "follows q' r" by blast
    with that(1) show ?thesis using follows_trans by blast
  qed
  show ?case
  proof (cases "type (symbol q) \<noteq> BRACE_RIGHT \<and> type (symbol q) \<noteq> EOF")
    case False
    then have "devicelist_loop ops q = Some (True, q)"
      by (subst devicelist_loop.simps) auto
    with follows_refl [of q] show ?thesis by blast
  next
    case True
    then have ne: "type (symbol q) \<noteq> EOF" by simp
    show ?thesis
    proof (cases "symbol_id (symbol q) = Some (CONNECT_ID (scanner q))")
      case False
      have "follows q (device ops q)" by (intro follows_device follows_refl)
      moreover have "pending (device ops q) < pending q"
        using wf ne by (rule device_progress)
      ultimately obtain rb r where "devicelist_loop ops (device ops q) = Some (rb, r)"
        "follows q r" using step by blast
      moreover from True False
      have "devicelist_loop ops q = devicelist_loop ops (device ops q)"
        by (subst devicelist_loop.simps) simp
      ultimately show ?thesis by simp
    next
      case c: True
      let ?s = "fst (read_check_symbol q)"
      let ?p1 = "snd (read_check_symbol q)"
      show ?thesis
      proof (cases "type ?s = BRACE_LEFT")
        case True
        with \<open>type (symbol q) \<noteq> BRACE_RIGHT \<and> type (symbol q) \<noteq> EOF\<close> c
        have "devicelist_loop ops q = Some (False, missing_brace ?s ?p1)"
          by (subst devicelist_loop.simps) (simp add: split_beta)
        with follows_missing_brace [OF ne] show ?thesis by blast
      next
        case False
        let ?n = "device ops (keyword_as_name ?p1)"
        have "follows q ?n"
          by (intro follows_device follows_keyword_as_name follows_read_check_symbol
              follows_refl)
        moreover have "pending ?n < pending q"
        proof -
          have "follows (keyword_as_name ?p1) ?n" by (intro follows_device follows_refl)
          then have "pending ?n \<le> pending (keyword_as_name ?p1)" by (rule follows_pending)
          with keyword_as_name_progress [OF ne] show ?thesis by simp
        qed
        ultimately obtain rb r where "devicelist_loop ops ?n = Some (rb, r)"
          "follows q r" using step by blast
        moreover from \<open>type (symbol q) \<noteq> BRACE_RIGHT \<and> type (symbol q) \<noteq> EOF\<close> c False
        have "devicelist_loop ops q = devicelist_loop ops ?n"
          by (subst devicelist_loop.simps) (simp add: split_beta)
        ultimately show ?thesis by simp
      qed
    qed
  qed
qed

text \<open>A result that is an exception, or a parser state that follows \<open>q\<close>.\<close>

definition follows_result :: "'k parser \<Rightarrow> py_error + 'k parser \<Rightarrow> bool" where
  "follows_result q res = (case res of Inl e \<Rightarrow> True | Inr r \<Rightarrow> follows q r)"

definition follows_loop_result :: "'k parser \<Rightarrow> py_error + bool \<times> 'k parser \<Rightarrow> bool" where
  "follows_loop_result q res = (case res of Inl e \<Rightarrow> True | Inr (rb, r) \<Rightarrow> follows q r)"

lemma connectionlist_loop_total:
  "wf_symbol (symbol q) \<Longrightarrow> \<not> skip q \<Longrightarrow>
   \<exists>res. connectionlist_loop ops q = Some res \<and> follows_loop_result q res"
proof (induction "pending q" arbitrary: q rule: less_induct)
  case less
  note wf = \<open>wf_symbol (symbol q)\<close> and sk = \<open>\<not> skip q\<close>
  have step: "\<exists>res. (case con ops q' of Inl e \<Rightarrow> Some (Inl e)
                      | Inr p2 \<Rightarrow> connectionlist_loop ops p2) = Some res \<and>
                follows_loop_result q res"
    if f: "follows q q'" and lt: "\<And>r. con ops q' = Inr r \<Longrightarrow> pending r < pending q" for q'
  proof (cases "con ops q'")
    case (Inl e)
    then show ?thesis by (simp add: follows_loop_result_def)
  next
    case (Inr p2)
    from f Inr have f2: "follows q p2" by (rule follows_con)
    from f2 wf have "wf_symbol (symbol p2)" by (rule follows_wf)
    moreover from Inr have "\<not> skip p2" by (rule con_skip)
    ultimately obtain res where res: "connectionlist_loop ops p2 = Some res"
      "follows_loop_result p2 res" using less.hyps [OF lt [OF Inr]] by blast
    from res(2) f2 have "follows_loop_result q res"
      by (auto simp: follows_loop_result_def split: sum.splits intro: follows_trans)
    with res(1) Inr show ?thesis by simp
  qed
  show ?case
  proof (cases "type (symbol q) \<noteq> BRACE_RIGHT \<and> type (symbol q) \<noteq> EOF")
    case False
    then have "connectionlist_loop ops q = Some (Inr (True, q))"
      by (subst connectionlist_loop.simps) auto
    then show ?thesis by (simp add: follows_loop_result_def follows_refl)
  next
    case True
    then have ne: "type (symbol q) \<noteq> EOF" by simp
    show ?thesis
    proof (cases "symbol_id (symbol q) = Some (MONITOR_ID (scanner q))")
      case False
      have "\<exists>res. (case con ops q of Inl e \<Rightarrow> Some (Inl e)
                      | Inr p2 \<Rightarrow> connectionlist_loop ops p2) = Some res \<and>
                follows_loop_result q res"
        using follows_refl con_progress [OF wf ne sk] by (rule step)
      moreover from True False
      have "connectionlist_loop ops q = (case con ops q of Inl e \<Rightarrow> Some (Inl e)
                      | Inr p2 \<Rightarrow> connectionlist_loop ops p2)"
        by (subst connectionlist_loop.simps) simp
      ultimately show ?thesis by simp
    next
      case c: True
      let ?s = "fst (read_check_symbol q)"
      let ?p1 = "snd (read_check_symbol q)"
      show ?thesis
      proof (cases "type ?s = BRACE_LEFT")
        case True
        with \<open>type (symbol q) \<noteq> BRACE_RIGHT \<and> type (symbol q) \<noteq> EOF\<close> c
        have "connectionlist_loop ops q = Some (Inr (False, missing_brace ?s ?p1))"
          by (subst connectionlist_loop.simps) (simp add: split_beta)
        with follows_missing_brace [OF ne] show ?thesis
          by (simp add: follows_loop_result_def)
      next
        case False
        let ?n = "keyword_as_name ?p1"
        have f: "follows q ?n"
          by (intro follows_keyword_as_name follows_read_check_symbol follows_refl)
        have lt: "pending r < pending q" if "con ops ?n = Inr r" for r
        proof -
          have "follows ?n r" using follows_refl that by (rule follows_con)
          then have "pending r \<le> pending ?n" by (rule follows_pending)
          with keyword_as_name_progress [OF ne] show ?thesis by simp
        qed
        from f lt have "\<exists>res. (case con ops ?n of Inl e \<Rightarrow> Some (Inl e)
                      | Inr p2 \<Rightarrow> connectionlist_loop ops p2) = Some res \<and>
                follows_loop_result q res" by (rule step)
        moreover from \<open>type (symbol q) \<noteq> BRACE_RIGHT \<and> type (symbol q) \<noteq> EOF\<close> c False
        have "connectionlist_loop ops q = (case con ops ?n of Inl e \<Rightarrow> Some (Inl e)
                      | Inr p2 \<Rightarrow> connectionlist_loop ops p2)"
          by (subst connectionlist_loop.simps) (simp add: split_beta)
        ultimately show ?thesis by simp
      qed
    qed
  qed
qed

lemma monitorlist_loop_total:
  "wf_symbol (symbol q) \<Longrightarrow>
   \<exists>res. monitorlist_loop ops q = Some res \<and> follows_loop_result q res"
proof (induction "pending q" arbitrary: q rule: less_induct)
  case less
  note wf = \<open>wf_symbol (symbol q)\<close>
  show ?case
  proof (cases "type (symbol q) \<noteq> BRACE_RIGHT \<and> type (symbol q) \<noteq> EOF")
    case False
    then have "monitorlist_loop ops q = Some (Inr (True, q))"
      by (subst monitorlist_loop.simps) auto
    then show ?thesis by (simp add: follows_loop_result_def follows_refl)
  next
    case True
    then have ne: "type (symbol q) \<noteq> EOF" by simp
    show ?thesis
    proof (cases "symbol_id (symbol q) = Some (END_ID (scanner q))")
      case c: True
      with True have "monitorlist_loop ops q =
          Some (Inr (False, error (''Expected '}'' @ [CHR 0x27]) None q))"
        by (subst monitorlist_loop.simps) simp
      then show ?thesis
        by (simp add: follows_loop_result_def follows_error follows_refl)
    next
      case False
      with True have u: "monitorlist_loop ops q =
          (case monitor ops q of Inl e \<Rightarrow> Some (Inl e)
           | Inr p1 \<Rightarrow> monitorlist_loop ops p1)"
        by (subst monitorlist_loop.simps) simp
      show ?thesis
      proof (cases "monitor ops q")
        case (Inl e)
        with u show ?thesis by (simp add: follows_loop_result_def)
      next
        case (Inr p1)
        from follows_refl Inr have f: "follows q p1" by (rule follows_monitor)
        from f wf have "wf_symbol (symbol p1)" by (rule follows_wf)
        moreover from wf ne Inr have "pending p1 < pending q" by (rule monitor_progress)
        ultimately obtain res where res: "monitorlist_loop ops p1 = Some res"
          "follows_loop_result p1 res" using less.hyps by blast
        from res(2) f have "follows_loop_result q res"
          by (auto simp: follows_loop_result_def split: sum.splits intro: follows_trans)
        with res(1) Inr u show ?thesis by simp
      qed
    qed
  qed
qed

lemma devicelist_total:
  assumes wf: "wf_symbol (symbol q)"
  shows "\<exists>r. devicelist ops q = Some r \<and> follows q r"
proof -
  let ?p1 = "if type (symbol q) = KEYWORD \<and> symbol_id (symbol q) = Some (DEVICES_ID (scanner q))
             then next_symbol q else error (''Expected 'DEVICES'' @ [CHR 0x27]) (Some ''{'') q"
  let ?p2 = "if type (symbol ?p1) = BRACE_LEFT then next_symbol ?p1
             else error (''Expected '{'' @ [CHR 0x27]) None ?p1"
  let ?d = "device ops ?p2"
  have f: "follows q ?d"
    by (intro follows_device) (simp add: follows_next_symbol follows_error follows_refl)
  from f wf have "wf_symbol (symbol ?d)" by (rule follows_wf)
  from devicelist_loop_total [OF this] obtain rb r where
    l: "devicelist_loop ops ?d = Some (rb, r)" and fr: "follows ?d r" by blast
  from f fr have "follows q r" by (rule follows_trans)
  then have "follows q (if rb then next_symbol r else r)"
    by (simp add: follows_next_symbol)
  with l show ?thesis by (simp add: devicelist_def Let_def)
qed

lemma connectionlist_total:
  assumes wf: "wf_symbol (symbol q)"
  shows "\<exists>res. connectionlist ops q = Some res \<and> follows_result q res"
proof -
  let ?p1 = "if \<not> skip q then
               (if type (symbol q) = KEYWORD \<and> symbol_id (symbol q) = Some (CONNECT_ID (scanner q))
                then next_symbol q else error (''Expected 'CONNECT'' @ [CHR 0x27]) (Some ''{'') q)
             else q"
  let ?p2 = "?p1\<lparr>skip := False\<rparr>"
  let ?p3 = "if type (symbol ?p2) = BRACE_LEFT then next_symbol ?p2
             else error (''Expected '{'' @ [CHR 0x27]) None ?p2"
  have f: "follows q ?p3"
    by (simp add: follows_next_symbol follows_error follows_refl)
  show ?thesis
  proof (cases "con ops ?p3")
    case (Inl e)
    then show ?thesis by (simp add: connectionlist_def Let_def follows_result_def)
  next
    case (Inr p4)
    from f Inr have f4: "follows q p4" by (rule follows_con)
    from f4 wf have "wf_symbol (symbol p4)" by (rule follows_wf)
    moreover from Inr have "\<not> skip p4" by (rule con_skip)
    ultimately obtain res where l: "connectionlist_loop ops p4 = Some res"
      and fr: "follows_loop_result p4 res" using connectionlist_loop_total by blast
    show ?thesis
    proof (cases res)
      case (Inl e)
      with Inr l show ?thesis by (simp add: connectionlist_def Let_def follows_result_def)
    next
      case r: (Inr x)
      obtain rb p5 where x: "x = (rb, p5)" by (cases x)
      with fr r have "follows p4 p5" by (simp add: follows_loop_result_def)
      with f4 have "follows q p5" by (rule follows_trans)
      then have "follows q (connectionlist_end ops (symbol q) rb p5)"
        by (rule follows_connectionlist_end)
      with Inr l r x show ?thesis
        by (simp add: connectionlist_def Let_def follows_result_def)
    qed
  qed
qed

lemma monitorlist_total:
  assumes wf: "wf_symbol (symbol q)"
  shows "\<exists>res. monitorlist ops q = Some res \<and> follows_result q res"
proof -
  let ?p1 = "if \<not> skip q then
               (if type (symbol q) = KEYWORD \<and> symbol_id (symbol q) = Some (MONITOR_ID (scanner q))
                then next_symbol q else error (''Expected 'MONITOR'' @ [CHR 0x27]) (Some ''{'') q)
             else q"
  let ?p2 = "?p1\<lparr>skip := False\<rparr>"
  have f2: "follows q ?p2"
    by (simp add: follows_next_symbol follows_error follows_refl)
  show ?thesis
  proof (cases "type (symbol ?p2) = BRACE_LEFT")
    case False
    from f2 have "follows q (error (''Expected '{'' @ [CHR 0x27]) None ?p2)" by (rule follows_error)
    with False show ?thesis by (simp add: monitorlist_def Let_def follows_result_def)
  next
    case True
    from f2 have fn: "follows q (next_symbol ?p2)" by (rule follows_next_symbol)
    show ?thesis
    proof (cases "monitor ops (next_symbol ?p2)")
      case (Inl e)
      with True show ?thesis by (simp add: monitorlist_def Let_def follows_result_def)
    next
      case (Inr p3)
      from fn Inr have f3: "follows q p3" by (rule follows_monitor)
      from f3 wf have "wf_symbol (symbol p3)" by (rule follows_wf)
      from monitorlist_loop_total [OF this] obtain res where
        l: "monitorlist_loop ops p3 = Some res" and fr: "follows_loop_result p3 res" by blast
      show ?thesis
      proof (cases res)
        case (Inl e)
        with True Inr l show ?thesis by (simp add: monitorlist_def Let_def follows_result_def)
      next
        case r: (Inr x)
        obtain rb p4 where x: "x = (rb, p4)" by (cases x)
        with fr r have "follows p3 p4" by (simp add: follows_loop_result_def)
        with f3 have "follows q p4" by (rule follows_trans)
        then have "follows q (if rb then next_symbol p4 else p4)"
          by (simp add: follows_next_symbol)
        with True Inr l r x show ?thesis
          by (simp add: monitorlist_def Let_def follows_result_def)
      qed
    qed
  qed
qed

lemma circuit_total:
  assumes wf: "wf_symbol (symbol q)"
  shows "\<exists>res. circuit ops q = Some res \<and> follows_result q res"
proof -
  let ?p1 = "if type (symbol q) = KEYWORD \<and> symbol_id (symbol q) = Some (CIRCUIT_ID (scanner q))
             then next_symbol q else error (''Expected 'CIRCUIT'' @ [CHR 0x27]) (Some ''{'') q"
  let ?p2 = "if type (symbol ?p1) = BRACE_LEFT then next_symbol ?p1
             else error (''Expected '{'' @ [CHR 0x27]) None ?p1"
  have f2: "follows q ?p2"
    by (simp add: follows_next_symbol follows_error follows_refl)
  from f2 wf have "wf_symbol (symbol ?p2)" by (rule follows_wf)
  from devicelist_total [OF this] obtain p3 where
    d: "devicelist ops ?p2 = Some p3" and f3: "follows ?p2 p3" by blast
  from f2 f3 have fq3: "follows q p3" by (rule follows_trans)
  from fq3 wf have "wf_symbol (symbol p3)" by (rule follows_wf)
  from connectionlist_total [OF this] obtain res4 where
    c: "connectionlist ops p3 = Some res4" and f4: "follows_result p3 res4" by blast
  show ?thesis
  proof (cases res4)
    case (Inl e)
    with d c show ?thesis by (simp add: circuit_def Let_def follows_result_def)
  next
    case r4: (Inr p4)
    with f4 fq3 have fq4: "follows q p4"
      by (auto simp: follows_result_def intro: follows_trans)
    from fq4 wf have "wf_symbol (symbol p4)" by (rule follows_wf)
    from monitorlist_total [OF this] obtain res5 where
      m: "monitorlist ops p4 = Some res5" and f5: "follows_result p4 res5" by blast
    show ?thesis
    proof (cases res5)
      case (Inl e)
      with d c r4 m show ?thesis by (simp add: circuit_def Let_def follows_result_def)
    next
      case r5: (Inr p5)
      with f5 fq4 have "follows q p5"
        by (auto simp: follows_result_def intro: follows_trans)
      then have "follows q (if type (symbol p5) = BRACE_RIGHT then next_symbol p5
                            else error (''Expected '}'' @ [CHR 0x27]) None p5)"
        by (simp add: follows_next_symbol follows_error)
      with d c r4 m r5 show ?thesis by (simp add: circuit_def Let_def follows_result_def)
    qed
  qed
qed

text \<open>\<^verbatim>\<open>parse_network\<close> ends: with an exception, or with a result whose truth value is the
  negated error flag of the state it leaves, a state that follows the one it started from
  and whose error text and output end with the error count.\<close>

lemma parse_network_total:
  assumes wf: "wf_symbol (symbol q)"
  shows "\<exists>res. parse_network ops q = Some res \<and>
     (case res of Inl e \<Rightarrow> True
      | Inr (b, r) \<Rightarrow> follows q r \<and> b = (\<not> error_flag r) \<and>
          (\<exists>msg. error_msg r = msg @ [newline, newline] @ ''Error Count: '' @ str (error_count r)) \<and>
          (\<exists>out. stdout r = out @ [''Error Count: '' @ str (error_count r)]))"
proof -
  from circuit_total [OF wf] obtain res1 where
    c: "circuit ops q = Some res1" and f1: "follows_result q res1" by blast
  show ?thesis
  proof (cases res1)
    case (Inl e)
    with c show ?thesis by (simp add: parse_network_def)
  next
    case (Inr p1)
    let ?p2 = "if type (symbol p1) = KEYWORD \<and> symbol_id (symbol p1) = Some (END_ID (scanner p1))
               then next_symbol p1 else error (''Expected 'END'' @ [CHR 0x27]) (Some '';'') p1"
    from Inr f1 have "follows q p1" by (simp add: follows_result_def)
    then have "follows q ?p2" by (simp add: follows_next_symbol follows_error)
    with c Inr show ?thesis
      by (simp add: parse_network_def Let_def)
  qed
qed

section \<open>The exceptions of the parse\<close>

text \<open>While no error was reported, every point read appends one device name and one pin
  (a name or the placeholder), and the arrow stays.\<close>

lemma follows_error_flag: "follows p q \<Longrightarrow> error_flag p \<Longrightarrow> error_flag q"
  by (simp add: follows_def)

lemma devicename_no_error:
  "\<not> error_flag (snd (devicename p)) \<Longrightarrow>
   fst (devicename p) \<and> \<not> error_flag p \<and>
   cur_arrow (snd (devicename p)) = cur_arrow p \<and>
   cur_device_name_list (snd (devicename p)) = cur_device_name_list p @ [symbol p] \<and>
   cur_pin_name_list (snd (devicename p)) = cur_pin_name_list p"
  by (simp add: devicename_def name_def Let_def split: if_splits)

lemma pinname_no_error:
  "\<not> error_flag (snd (pinname p)) \<Longrightarrow>
   fst (pinname p) \<and> \<not> error_flag p \<and>
   cur_arrow (snd (pinname p)) = cur_arrow p \<and>
   cur_device_name_list (snd (pinname p)) = cur_device_name_list p \<and>
   cur_pin_name_list (snd (pinname p)) = cur_pin_name_list p @ [Some (symbol p)]"
  by (simp add: pinname_def name_def Let_def split: if_splits)

lemma point_no_error:
  assumes "\<not> error_flag (snd (point p))"
  shows "fst (point p) \<and> \<not> error_flag p \<and> cur_arrow (snd (point p)) = cur_arrow p \<and>
    (\<exists>d x. cur_device_name_list (snd (point p)) = cur_device_name_list p @ [d] \<and>
           cur_pin_name_list (snd (point p)) = cur_pin_name_list p @ [x])"
proof -
  let ?d = "devicename p"
  have fd: "follows (snd ?d) (snd (point p))"
    by (simp add: point_def split_beta follows_pinname follows_next_symbol follows_refl)
  with assms have "\<not> error_flag (snd ?d)" using follows_error_flag by blast
  note d = devicename_no_error [OF this]
  show ?thesis
  proof (cases "type (symbol (snd ?d)) = DOT")
    case True
    with d have pt: "point p = pinname (next_symbol (snd ?d))"
      by (simp add: point_def split_beta)
    with assms have "\<not> error_flag (snd (pinname (next_symbol (snd ?d))))" by simp
    from pinname_no_error [OF this] d show ?thesis unfolding pt by simp
  next
    case False
    with d show ?thesis by (simp add: point_def split_beta)
  qed
qed

lemma points_loop_no_error:
  "\<not> error_flag (points_loop p) \<Longrightarrow>
   \<not> error_flag p \<and> cur_arrow (points_loop p) = cur_arrow p \<and>
   (\<exists>ds xs. cur_device_name_list (points_loop p) = cur_device_name_list p @ ds \<and>
            cur_pin_name_list (points_loop p) = cur_pin_name_list p @ xs \<and>
            length ds = length xs)"
proof (induction p rule: points_loop.induct)
  case (1 p)
  show ?case
  proof (cases "type (symbol p) = COMMA \<and> type (symbol p) \<noteq> EOF")
    case False
    then have "points_loop p = p" by (subst points_loop.simps) auto
    with "1.prems" show ?thesis by simp
  next
    case True
    let ?q = "snd (point (next_symbol p))"
    from True have u: "points_loop p = points_loop ?q" by (subst points_loop.simps) simp
    with "1.prems" have "\<not> error_flag (points_loop ?q)" by simp
    from "1.IH" [OF True this] obtain ds xs where
      q: "\<not> error_flag ?q" "cur_arrow (points_loop ?q) = cur_arrow ?q"
      "cur_device_name_list (points_loop ?q) = cur_device_name_list ?q @ ds"
      "cur_pin_name_list (points_loop ?q) = cur_pin_name_list ?q @ xs" "length ds = length xs"
      by blast
    from point_no_error [OF q(1)] obtain d x where
      n: "\<not> error_flag p" "cur_arrow ?q = cur_arrow p"
      "cur_device_name_list ?q = cur_device_name_list p @ [d]"
      "cur_pin_name_list ?q = cur_pin_name_list p @ [x]"
      by auto
    from q n have "cur_device_name_list (points_loop p) = cur_device_name_list p @ (d # ds) \<and>
            cur_pin_name_list (points_loop p) = cur_pin_name_list p @ (x # xs) \<and>
            length (d # ds) = length (x # xs)"
      unfolding u by simp
    then have "\<exists>ds xs. cur_device_name_list (points_loop p) = cur_device_name_list p @ ds \<and>
            cur_pin_name_list (points_loop p) = cur_pin_name_list p @ xs \<and>
            length ds = length xs" by blast
    with q(2) n(1,2) show ?thesis unfolding u by simp
  qed
qed

lemma con_destinations_no_error:
  assumes "\<not> error_flag (con_destinations p)"
  shows "\<not> error_flag p \<and> cur_arrow (con_destinations p) \<noteq> None \<and>
    (\<exists>ds xs. cur_device_name_list (con_destinations p) = cur_device_name_list p @ ds \<and>
             cur_pin_name_list (con_destinations p) = cur_pin_name_list p @ xs \<and>
             length ds = length xs)"
proof -
  let ?p0 = "next_symbol (p\<lparr>cur_arrow := Some (symbol p)\<rparr>)"
  let ?q = "snd (point ?p0)"
  let ?r = "points_loop ?q"
  from assms have a: "type (symbol p) = ARROW"
    by (auto simp: con_destinations_def split: if_splits)
  with assms have s: "type (symbol ?r) = SEMICOLON"
    by (auto simp: con_destinations_def Let_def split: if_splits)
  with a have c: "con_destinations p = ?r" by (simp add: con_destinations_def Let_def)
  with assms have "\<not> error_flag ?r" by simp
  from points_loop_no_error [OF this] obtain ds xs where
    q: "\<not> error_flag ?q" "cur_arrow ?r = cur_arrow ?q"
    "cur_device_name_list ?r = cur_device_name_list ?q @ ds"
    "cur_pin_name_list ?r = cur_pin_name_list ?q @ xs" "length ds = length xs"
    by blast
  from point_no_error [OF q(1)] obtain d x where
    n: "\<not> error_flag ?p0" "cur_arrow ?q = cur_arrow ?p0"
    "cur_device_name_list ?q = cur_device_name_list ?p0 @ [d]"
    "cur_pin_name_list ?q = cur_pin_name_list ?p0 @ [x]"
    by auto
  from q n have "cur_device_name_list ?r = cur_device_name_list p @ (d # ds) \<and>
            cur_pin_name_list ?r = cur_pin_name_list p @ (x # xs) \<and>
            length (d # ds) = length (x # xs)"
    by simp
  then have "\<exists>ds xs. cur_device_name_list ?r = cur_device_name_list p @ ds \<and>
            cur_pin_name_list ?r = cur_pin_name_list p @ xs \<and> length ds = length xs"
    by blast
  moreover from q(2) n(1,2) have "\<not> error_flag p" "cur_arrow ?r \<noteq> None" by simp_all
  ultimately show ?thesis unfolding c by simp
qed

text \<open>The first part of \<^verbatim>\<open>__con\<close> raises nothing: \<open>cur_device_name_list[0]\<close> is read only
  after a point was read with no error. If it leaves no error, the local variables of the
  source are bound, the arrow is set, and there are as many pins as device names.\<close>

lemma con_points_result:
  "\<exists>out r. con_points p = Inr (out, r) \<and>
     (\<not> error_flag r \<longrightarrow>
        out \<noteq> None \<and> cur_arrow r \<noteq> None \<and>
        length (cur_pin_name_list r) = length (cur_device_name_list r))"
proof -
  let ?p0 = "p\<lparr>cur_device_name_list := [], cur_pin_name_list := []\<rparr>"
  let ?p1 = "snd (point ?p0)"
  show ?thesis
  proof (cases "fst (point ?p0)")
    case False
    have "error_flag ?p1"
    proof (rule ccontr)
      assume "\<not> error_flag ?p1"
      from point_no_error [OF this] False show False by simp
    qed
    with False show ?thesis by (simp add: con_points_def split_beta)
  next
    case ok: True
    show ?thesis
    proof (cases "error_flag ?p1")
      case True
      have "follows ?p1 (con_destinations ?p1)"
        by (intro follows_con_destinations follows_refl)
      with True have "error_flag (con_destinations ?p1)" using follows_error_flag by blast
      with ok True show ?thesis by (simp add: con_points_def split_beta)
    next
      case False
      from point_no_error [OF False] obtain d x where
        l: "cur_device_name_list ?p1 = [d]" "cur_pin_name_list ?p1 = [x]" by auto
      let ?p2 = "?p1\<lparr>cur_device_name_list := [], cur_pin_name_list := []\<rparr>"
      let ?out = "Some (d, x, query (names (scanner ?p1)) (Some (string d)),
                        query (names (scanner ?p1)) (map_option string x))"
      from ok False l have c: "con_points p = Inr (?out, con_destinations ?p2)"
        by (simp add: con_points_def split_beta)
      have "\<not> error_flag (con_destinations ?p2) \<longrightarrow>
        cur_arrow (con_destinations ?p2) \<noteq> None \<and>
        length (cur_pin_name_list (con_destinations ?p2)) =
          length (cur_device_name_list (con_destinations ?p2))"
      proof
        assume "\<not> error_flag (con_destinations ?p2)"
        from con_destinations_no_error [OF this] show
          "cur_arrow (con_destinations ?p2) \<noteq> None \<and>
           length (cur_pin_name_list (con_destinations ?p2)) =
             length (cur_device_name_list (con_destinations ?p2))"
          by auto
      qed
      with c show ?thesis by simp
    qed
  qed
qed

text \<open>The connections: with the local variables bound, the arrow set and a pin for every
  device name, the only exception is the \<^verbatim>\<open>TypeError\<close> of \<^verbatim>\<open>print_error\<close> on the
  placeholder of a point written without a pin.\<close>

lemma error_at_pin_raises: "error_at_pin message pin p = Inl e \<Longrightarrow> e = TypeError"
  by (auto simp: error_at_pin_def split: option.splits if_splits)

lemma connect_loop_raises:
  "connect_loop ops out pins i devs p = Inl e \<Longrightarrow> out \<noteq> None \<Longrightarrow> cur_arrow p \<noteq> None \<Longrightarrow>
   length pins = i + length devs \<Longrightarrow> length (cur_pin_name_list p) = i + length devs \<Longrightarrow>
   length (cur_device_name_list p) = i + length devs \<Longrightarrow> e = TypeError"
proof (induction devs arbitrary: i p)
  case Nil
  then show ?case by simp
next
  case (Cons d devs)
  from Cons.prems(2) obtain s1 s2 i1 i2 where out: "out = Some (s1, s2, i1, i2)"
    by (cases out) auto
  let ?c = "make_connection ops i1 i2 d (pins ! i) (names (scanner p), kernel p)"
  let ?p1 = "p\<lparr>scanner := (scanner p)\<lparr>names := fst (snd ?c)\<rparr>, kernel := snd (snd ?c)\<rparr>"
  show ?case
  proof (cases "fst ?c = NO_ERROR")
    case True
    with Cons.prems(1,4) out have "connect_loop ops out pins (i + 1) devs ?p1 = Inl e"
      by (simp add: split_beta Let_def split: if_splits)
    from this Cons.prems(2) show ?thesis
      by (rule Cons.IH) (use Cons.prems in simp_all)
  next
    case False
    with Cons.prems out show ?thesis
      by (auto simp: split_beta Let_def split: if_splits option.splits
          dest: error_at_pin_raises)
  qed
qed

lemma con_raises: "con ops p = Inl e \<Longrightarrow> e = TypeError \<and> \<not> error_flag p"
proof -
  assume c: "con ops p = Inl e"
  from con_points_result [of p] obtain out r where
    r: "con_points p = Inr (out, r)" and
    i: "\<not> error_flag r \<longrightarrow>
        out \<noteq> None \<and> cur_arrow r \<noteq> None \<and>
        length (cur_pin_name_list r) = length (cur_device_name_list r)"
    by blast
  from c r have cc: "con_connect ops out r = Inl e"
    by (auto simp: con_def split: sum.splits)
  then have ne: "\<not> error_flag r" by (auto simp: con_connect_def split: if_splits)
  have "follows p r" using follows_refl r by (rule follows_con_points)
  with ne have "\<not> error_flag p" using follows_error_flag by blast
  moreover from cc ne have "connect_loop ops out
      (map (\<lambda>dev. query (names (scanner r)) (map_option string dev)) (cur_pin_name_list r)) 0
      (map (\<lambda>dev. query (names (scanner r)) (Some (string dev))) (cur_device_name_list r)) r
      = Inl e"
    by (simp add: con_connect_def Let_def)
  then have "e = TypeError"
    by (rule connect_loop_raises) (use i ne in simp_all)
  ultimately show ?thesis by simp
qed

text \<open>\<^verbatim>\<open>__monitor\<close> raises nothing.\<close>

lemma monitor_returns: "\<exists>r. monitor ops p = Inr r"
proof -
  let ?p0 = "p\<lparr>cur_device_name_list := [], cur_pin_name_list := []\<rparr>"
  let ?p1 = "snd (point ?p0)"
  have "\<exists>r. monitor_make ops ?p1 = Inr r"
  proof (cases "error_flag ?p1")
    case True
    then show ?thesis by (simp add: monitor_make_def)
  next
    case False
    from point_no_error [OF False] obtain d x where
      "cur_device_name_list ?p1 = [d]" "cur_pin_name_list ?p1 = [x]" by auto
    with False show ?thesis by (simp add: monitor_make_def split_beta Let_def)
  qed
  then show ?thesis by (auto simp: monitor_def)
qed

text \<open>So for the lists, \<^verbatim>\<open>__circuit\<close> and \<^verbatim>\<open>parse_network\<close>: the only exception is that
  \<^verbatim>\<open>TypeError\<close>, and none is raised once an error was reported.\<close>

lemma connectionlist_loop_raises:
  "connectionlist_loop ops q = Some res \<Longrightarrow> res = Inl e \<Longrightarrow> e = TypeError \<and> \<not> error_flag q"
proof (induction arbitrary: e rule: connectionlist_loop.raw_induct [rotated 1, consumes 1])
  case (1 loop ops q res)
  have step: "e = TypeError \<and> \<not> error_flag q'"
    if "(case con ops q' of Inl e \<Rightarrow> Some (Inl e) | Inr p2 \<Rightarrow> loop ops p2) = Some (Inl e)"
    for q'
  proof (cases "con ops q'")
    case (Inl e')
    with that con_raises [OF Inl] show ?thesis by simp
  next
    case (Inr p2)
    with that have "loop ops p2 = Some (Inl e)" by simp
    from "1.IH" [OF this] have "e = TypeError" "\<not> error_flag p2" by simp_all
    moreover have "follows q' p2" using follows_refl Inr by (rule follows_con)
    ultimately show ?thesis using follows_error_flag by blast
  qed
  have k: "error_flag (keyword_as_name x)" for x :: "'a parser"
    by (simp add: keyword_as_name_def)
  from "1.prems" "1.hyps" step [of q] step [of "keyword_as_name (snd (read_check_symbol q))"] k
  show ?case
    by (auto simp: split_beta split: if_splits)
qed

lemma monitorlist_loop_returns:
  "monitorlist_loop ops q = Some res \<Longrightarrow> \<exists>r. res = Inr r"
proof (induction rule: monitorlist_loop.raw_induct [rotated 1, consumes 1])
  case (1 loop ops q res)
  from monitor_returns [of ops q] obtain r where "monitor ops q = Inr r" by blast
  with "1.hyps" "1.IH" show ?case by (auto split: if_splits)
qed

lemma connectionlist_raises:
  assumes "connectionlist ops p = Some (Inl e)"
  shows "e = TypeError \<and> \<not> error_flag p"
proof -
  let ?p1 = "if \<not> skip p then
               (if type (symbol p) = KEYWORD \<and> symbol_id (symbol p) = Some (CONNECT_ID (scanner p))
                then next_symbol p else error (''Expected 'CONNECT'' @ [CHR 0x27]) (Some ''{'') p)
             else p"
  let ?p2 = "?p1\<lparr>skip := False\<rparr>"
  let ?p3 = "if type (symbol ?p2) = BRACE_LEFT then next_symbol ?p2
             else error (''Expected '{'' @ [CHR 0x27]) None ?p2"
  have f: "follows p ?p3"
    by (simp add: follows_next_symbol follows_error follows_refl)
  have "e = TypeError \<and> \<not> error_flag ?p3"
  proof (cases "con ops ?p3")
    case (Inl e')
    with assms have "e' = e" by (simp add: connectionlist_def Let_def)
    with con_raises [OF Inl] show ?thesis by simp
  next
    case (Inr p4)
    with assms have "connectionlist_loop ops p4 = Some (Inl e)"
      by (auto simp: connectionlist_def Let_def split: option.splits sum.splits prod.splits)
    then have "e = TypeError \<and> \<not> error_flag p4" by (rule connectionlist_loop_raises) simp
    moreover have "follows ?p3 p4" using follows_refl Inr by (rule follows_con)
    ultimately show ?thesis using follows_error_flag by blast
  qed
  with f show ?thesis using follows_error_flag by blast
qed

lemma monitorlist_returns: "monitorlist ops p = Some res \<Longrightarrow> \<exists>r. res = Inr r"
proof -
  assume a: "monitorlist ops p = Some res"
  let ?p1 = "if \<not> skip p then
               (if type (symbol p) = KEYWORD \<and> symbol_id (symbol p) = Some (MONITOR_ID (scanner p))
                then next_symbol p else error (''Expected 'MONITOR'' @ [CHR 0x27]) (Some ''{'') p)
             else p"
  let ?p2 = "?p1\<lparr>skip := False\<rparr>"
  from monitor_returns [of ops "next_symbol ?p2"] obtain p3 where
    m: "monitor ops (next_symbol ?p2) = Inr p3" by blast
  show ?thesis
  proof (cases "type (symbol ?p2) = BRACE_LEFT")
    case False
    with a show ?thesis by (auto simp: monitorlist_def Let_def)
  next
    case True
    with a m obtain res' where l: "monitorlist_loop ops p3 = Some res'"
      by (auto simp: monitorlist_def Let_def split: option.splits)
    from monitorlist_loop_returns [OF l] obtain x where "res' = Inr x" by blast
    with a m l True show ?thesis
      by (auto simp: monitorlist_def Let_def split_beta)
  qed
qed

lemma circuit_raises:
  assumes "circuit ops p = Some (Inl e)" and wf: "wf_symbol (symbol p)"
  shows "e = TypeError \<and> \<not> error_flag p"
proof -
  let ?p1 = "if type (symbol p) = KEYWORD \<and> symbol_id (symbol p) = Some (CIRCUIT_ID (scanner p))
             then next_symbol p else error (''Expected 'CIRCUIT'' @ [CHR 0x27]) (Some ''{'') p"
  let ?p2 = "if type (symbol ?p1) = BRACE_LEFT then next_symbol ?p1
             else error (''Expected '{'' @ [CHR 0x27]) None ?p1"
  have f2: "follows p ?p2"
    by (simp add: follows_next_symbol follows_error follows_refl)
  from f2 wf have "wf_symbol (symbol ?p2)" by (rule follows_wf)
  from devicelist_total [OF this] obtain p3 where
    d: "devicelist ops ?p2 = Some p3" and f3: "follows ?p2 p3" by blast
  from f2 f3 have f: "follows p p3" by (rule follows_trans)
  from assms(1) d obtain res4 where c: "connectionlist ops p3 = Some res4"
    by (auto simp: circuit_def Let_def split: option.splits)
  have "e = TypeError \<and> \<not> error_flag p3"
  proof (cases res4)
    case (Inl e')
    with assms(1) d c have "e' = e" by (simp add: circuit_def Let_def)
    with c Inl show ?thesis using connectionlist_raises by blast
  next
    case (Inr p4)
    with assms(1) d c obtain res5 where m: "monitorlist ops p4 = Some res5"
      by (auto simp: circuit_def Let_def split: option.splits)
    from monitorlist_returns [OF m] obtain x where "res5 = Inr x" by blast
    with assms(1) d c Inr m show ?thesis by (simp add: circuit_def Let_def)
  qed
  with f show ?thesis using follows_error_flag by blast
qed

lemma parse_network_raises:
  "parse_network ops p = Some (Inl e) \<Longrightarrow> wf_symbol (symbol p) \<Longrightarrow>
   e = TypeError \<and> \<not> error_flag p"
proof -
  assume a: "parse_network ops p = Some (Inl e)" and wf: "wf_symbol (symbol p)"
  from a have "circuit ops p = Some (Inl e)"
    by (auto simp: parse_network_def Let_def split: option.splits sum.splits)
  from this wf show ?thesis by (rule circuit_raises)
qed

section \<open>A stand-in for devices, network and monitors\<close>

text \<open>Modelled from the spec: a stand-in for the missing modules \<^verbatim>\<open>devices.py\<close>,
  \<^verbatim>\<open>network.py\<close> and \<^verbatim>\<open>monitors.py\<close> that only records the calls it receives, in order.
  Every call succeeds, no input is reported unconnected, and the name table is left as it
  is. It serves to run the parser on concrete files.\<close>

datatype kernel_call =
  Make_clock nat "nat option"
  | Make_switch nat "nat option"
  | Make_gate nat gate_kind "nat option"
  | Make_d_type nat
  | Make_connection "nat option" "nat option" "nat option" "nat option"
  | Make_monitor "nat option" "nat option"

definition recording_ops :: "kernel_call list kernel_ops" where
  "recording_ops =
     \<lparr>make_clock = (\<lambda>d a (n, k). (n, k @ [Make_clock d a])),
      make_switch = (\<lambda>d a (n, k). (n, k @ [Make_switch d a])),
      make_gate = (\<lambda>d g a (n, k). (n, k @ [Make_gate d g a])),
      make_d_type = (\<lambda>d (n, k). (n, k @ [Make_d_type d])),
      make_connection = (\<lambda>a b c d (n, k). (NO_ERROR, n, k @ [Make_connection a b c d])),
      check_network = (\<lambda>(n, k). []),
      network_error_message = (\<lambda>e. []),
      make_monitor = (\<lambda>a b (n, k). (MONITOR_NO_ERROR, n, k @ [Make_monitor a b])),
      monitors_error_message = (\<lambda>e. [])\<rparr>"

text \<open>The parser at the start of a file, on a fresh name table, with no call recorded.\<close>

definition parser_on :: "string \<Rightarrow> kernel_call list parser" where
  "parser_on text = Parser_init (Scanner_init text []) []"

section \<open>The claims about the parser\<close>




lemma next_symbol_reads:
  "symbol (next_symbol x) = fst (get_symbol (scanner x))"
  "scanner (next_symbol x) = snd (snd (get_symbol (scanner x)))"
  by (simp_all add: next_symbol_def split_beta)

lemma iterate_next_symbol:
  "symbol q = symbol p \<Longrightarrow> scanner q = scanner p \<Longrightarrow>
   symbol ((next_symbol ^^ n) q) = symbol ((next_symbol ^^ n) p) \<and>
   scanner ((next_symbol ^^ n) q) = scanner ((next_symbol ^^ n) p)"
proof (induction n)
  case 0
  then show ?case by simp
next
  case (Suc n)
  then have "scanner ((next_symbol ^^ n) q) = scanner ((next_symbol ^^ n) p)" by blast
  then show ?case
    by (simp only: funpow.simps o_apply next_symbol_reads simp_thms)
qed

lemma error_loop_iterate:
  "\<exists>n. error_loop st q = (next_symbol ^^ n) q \<and>
        (string (symbol (error_loop st q)) = st \<or> type (symbol (error_loop st q)) = EOF) \<and>
        (\<forall>i<n. string (symbol ((next_symbol ^^ i) q)) \<noteq> st \<and>
                type (symbol ((next_symbol ^^ i) q)) \<noteq> EOF)"
proof (induction st q rule: error_loop.induct)
  case (1 st q)
  show ?case
  proof (cases "string (symbol q) \<noteq> st \<and> type (symbol q) \<noteq> EOF")
    case False
    then have e: "error_loop st q = q" by (subst error_loop.simps) auto
    with False have "error_loop st q = (next_symbol ^^ 0) q \<and>
        (string (symbol (error_loop st q)) = st \<or> type (symbol (error_loop st q)) = EOF) \<and>
        (\<forall>i<0. string (symbol ((next_symbol ^^ i) q)) \<noteq> st \<and>
                type (symbol ((next_symbol ^^ i) q)) \<noteq> EOF)"
      by auto
    then show ?thesis by blast
  next
    case True
    let ?q' = "next_symbol q"
    from True have e: "error_loop st q = error_loop st ?q'"
      by (subst error_loop.simps) simp
    from "1.IH" [OF True] obtain n where n: "error_loop st ?q' = (next_symbol ^^ n) ?q'"
      "string (symbol (error_loop st ?q')) = st \<or> type (symbol (error_loop st ?q')) = EOF"
      "\<forall>i<n. string (symbol ((next_symbol ^^ i) ?q')) \<noteq> st \<and>
              type (symbol ((next_symbol ^^ i) ?q')) \<noteq> EOF"
      by blast
    have "\<forall>i<Suc n. string (symbol ((next_symbol ^^ i) q)) \<noteq> st \<and>
              type (symbol ((next_symbol ^^ i) q)) \<noteq> EOF"
    proof (intro allI impI)
      fix i assume i: "i < Suc n"
      show "string (symbol ((next_symbol ^^ i) q)) \<noteq> st \<and>
              type (symbol ((next_symbol ^^ i) q)) \<noteq> EOF"
      proof (cases i)
        case 0
        with True show ?thesis by simp
      next
        case (Suc j)
        with i n(3) show ?thesis by (simp add: funpow_swap1)
      qed
    qed
    with n(1,2) e have "error_loop st q = (next_symbol ^^ Suc n) q \<and>
        (string (symbol (error_loop st q)) = st \<or> type (symbol (error_loop st q)) = EOF) \<and>
        (\<forall>i<Suc n. string (symbol ((next_symbol ^^ i) q)) \<noteq> st \<and>
                type (symbol ((next_symbol ^^ i) q)) \<noteq> EOF)"
      by (simp add: funpow_swap1)
    then show ?thesis by blast
  qed
qed

text \<open>
  Claim C5 (the error routine). A call of \<^verbatim>\<open>__error\<close> adds exactly one to the error counter
  (and sets the error flag). With no stopping symbol, the current symbol and the scanner
  are left where they were. With a stopping symbol, the current symbol afterwards is the
  one reached by some number \<open>n\<close> of \<^verbatim>\<open>get_symbol\<close> calls, its string is the stopping
  symbol or it is the end of the file, and none of the symbols passed over (the current
  one included, so \<open>n = 0\<close> when it already matches) had that string or was the end of the
  file.
\<close>

theorem error_routine:
  "(let r = error_at message stop s p in
      error_count r = error_count p + 1 \<and> error_flag r \<and>
      (case stop of
         None \<Rightarrow> symbol r = symbol p \<and> scanner r = scanner p
       | Some st \<Rightarrow>
           (\<exists>n. symbol r = symbol ((next_symbol ^^ n) p) \<and>
                scanner r = scanner ((next_symbol ^^ n) p) \<and>
                (string (symbol r) = st \<or> type (symbol r) = EOF) \<and>
                (\<forall>i<n. string (symbol ((next_symbol ^^ i) p)) \<noteq> st \<and>
                        type (symbol ((next_symbol ^^ i) p)) \<noteq> EOF))))"
proof (cases stop)
  case None
  then show ?thesis by (simp add: error_at_unfold Let_def)
next
  case (Some st)
  let ?r = "error_at message (Some st) s p"
  let ?q = "p\<lparr>error_flag := True, error_count := error_count p + 1, scanner := scanner p,
               stdout := stdout p @ fst (snd (print_error (scanner p) s message))\<rparr>"
  from error_loop_iterate [of st ?q] obtain n where n: "error_loop st ?q = (next_symbol ^^ n) ?q"
    "string (symbol (error_loop st ?q)) = st \<or> type (symbol (error_loop st ?q)) = EOF"
    "\<forall>i<n. string (symbol ((next_symbol ^^ i) ?q)) \<noteq> st \<and>
            type (symbol ((next_symbol ^^ i) ?q)) \<noteq> EOF"
    by blast
  have same: "symbol ((next_symbol ^^ i) ?q) = symbol ((next_symbol ^^ i) p) \<and>
      scanner ((next_symbol ^^ i) ?q) = scanner ((next_symbol ^^ i) p)" for i
    by (rule iterate_next_symbol) simp_all
  have r: "symbol ?r = symbol (error_loop st ?q)" "scanner ?r = scanner (error_loop st ?q)"
    by (simp_all add: error_at_unfold Let_def)
  have c: "error_count ?r = error_count p + 1" "error_flag ?r"
    by simp_all
  have 1: "symbol ?r = symbol ((next_symbol ^^ n) p)"
    unfolding r(1) n(1) by (rule same [THEN conjunct1])
  have 2: "scanner ?r = scanner ((next_symbol ^^ n) p)"
    unfolding r(2) n(1) by (rule same [THEN conjunct2])
  have 3: "string (symbol ?r) = st \<or> type (symbol ?r) = EOF"
    unfolding r(1) by (rule n(2))
  have 4: "\<forall>i<n. string (symbol ((next_symbol ^^ i) p)) \<noteq> st \<and>
            type (symbol ((next_symbol ^^ i) p)) \<noteq> EOF"
    using n(3) by (simp only: same [THEN conjunct1])
  from 1 2 3 4 have "\<exists>n. symbol ?r = symbol ((next_symbol ^^ n) p) \<and>
       scanner ?r = scanner ((next_symbol ^^ n) p) \<and>
       (string (symbol ?r) = st \<or> type (symbol ?r) = EOF) \<and>
       (\<forall>i<n. string (symbol ((next_symbol ^^ i) p)) \<noteq> st \<and>
               type (symbol ((next_symbol ^^ i) p)) \<noteq> EOF)"
    by blast
  with c show ?thesis
    unfolding Some Let_def option.case by blast
qed

theorem error_routine_witness:
  "error_count (error_at ''x'' (Some '';'') (symbol (parser_on ''a b;'')) (parser_on ''a b;''))
     = error_count (parser_on ''a b;'') + 1 \<and>
   string (symbol (parser_on ''a b;'')) = ''a'' \<and>
   string (symbol (next_symbol (parser_on ''a b;''))) = ''b'' \<and>
   (let r = error_at ''x'' (Some '';'') (symbol (parser_on ''a b;'')) (parser_on ''a b;'')
    in string (symbol r) = '';'' \<and> position (symbol r) = 3 \<and> error_count r = 1)"
proof -
  let ?p = "parser_on ''a b;''"
  have 1: "string (symbol ?p) = ''a''" by code_simp
  have 2: "string (symbol (next_symbol ?p)) = ''b''" by code_simp
  have 3: "(let r = error_at ''x'' (Some '';'') (symbol ?p) ?p
    in string (symbol r) = '';'' \<and> position (symbol r) = 3 \<and> error_count r = 1)"
    by code_simp
  note a = error_routine [of "''x''" "Some '';''" "symbol ?p" ?p, unfolded Let_def,
      THEN conjunct1]
  from a 1 2 3 show ?thesis by (intro conjI)
qed


text \<open>
  Claim C9 (nothing is built after the first error). Every error report sets the error
  flag. Once it is set, the three places where the parser calls devices, network and
  monitors do nothing (\<open>make_devices\<close>, \<open>con_connect\<close>, \<open>monitor_make\<close>), and every parser
  routine returns, leaving the flag set and the state of devices, network and monitors as
  it was: the clauses \<^verbatim>\<open>__device\<close>, \<^verbatim>\<open>__con\<close>, \<^verbatim>\<open>__monitor\<close>, and (the current symbol being
  one the scanner made) the three lists, \<^verbatim>\<open>__circuit\<close> and \<^verbatim>\<open>parse_network\<close>, which then
  returns false.
\<close>

theorem no_kernel_call_after_error:
  "error_flag (error_at message stop s q) \<and>
   (error_flag p \<longrightarrow>
      make_devices make_device p = p \<and> con_connect ops out p = Inr p \<and>
      monitor_make ops p = Inr p \<and>
      error_flag (device ops p) \<and> kernel (device ops p) = kernel p \<and>
      (\<exists>r. con ops p = Inr r \<and> error_flag r \<and> kernel r = kernel p) \<and>
      (\<exists>r. monitor ops p = Inr r \<and> error_flag r \<and> kernel r = kernel p) \<and>
      (wf_symbol (symbol p) \<longrightarrow>
         (\<exists>r. devicelist ops p = Some r \<and> error_flag r \<and> kernel r = kernel p) \<and>
         (\<exists>r. connectionlist ops p = Some (Inr r) \<and> error_flag r \<and> kernel r = kernel p) \<and>
         (\<exists>r. monitorlist ops p = Some (Inr r) \<and> error_flag r \<and> kernel r = kernel p) \<and>
         (\<exists>r. circuit ops p = Some (Inr r) \<and> error_flag r \<and> kernel r = kernel p) \<and>
         (\<exists>r. parse_network ops p = Some (Inr (False, r)) \<and> error_flag r \<and>
              kernel r = kernel p)))"
proof (intro conjI impI)
  show "error_flag (error_at message stop s q)" by simp
next
  assume e: "error_flag p"
  have keep: "error_flag r \<and> kernel r = kernel p" if "follows p r" for r
    using that e by (simp add: follows_def)
  show "make_devices make_device p = p" using e by (simp add: make_devices_def)
  show "con_connect ops out p = Inr p" using e by (simp add: con_connect_def)
  show "monitor_make ops p = Inr p" using e by (simp add: monitor_make_def)
  have d: "follows p (device ops p)" by (intro follows_device follows_refl)
  from keep [OF d] show "error_flag (device ops p)" "kernel (device ops p) = kernel p"
    by simp_all
  show "\<exists>r. con ops p = Inr r \<and> error_flag r \<and> kernel r = kernel p"
  proof (cases "con ops p")
    case (Inl x)
    from con_raises [OF this] e show ?thesis by simp
  next
    case (Inr r)
    with keep follows_con [OF follows_refl, of ops p r] show ?thesis by simp
  qed
  from monitor_returns [of ops p] obtain r where r: "monitor ops p = Inr r" by blast
  with keep follows_monitor [OF follows_refl, of ops p r]
  show "\<exists>r. monitor ops p = Inr r \<and> error_flag r \<and> kernel r = kernel p" by simp
next
  assume e: "error_flag p" and wf: "wf_symbol (symbol p)"
  have keep: "error_flag r \<and> kernel r = kernel p" if "follows p r" for r
    using that e by (simp add: follows_def)
  from devicelist_total [OF wf, of ops] keep
  show "\<exists>r. devicelist ops p = Some r \<and> error_flag r \<and> kernel r = kernel p" by blast
  from connectionlist_total [OF wf, of ops] obtain res where
    c: "connectionlist ops p = Some res" "follows_result p res" by blast
  show "\<exists>r. connectionlist ops p = Some (Inr r) \<and> error_flag r \<and> kernel r = kernel p"
  proof (cases res)
    case (Inl x)
    with c(1) connectionlist_raises [of ops p x] e show ?thesis by simp
  next
    case (Inr r)
    with c keep [of r] show ?thesis by (simp add: follows_result_def)
  qed
  from monitorlist_total [OF wf, of ops] obtain res where
    m: "monitorlist ops p = Some res" "follows_result p res" by blast
  from monitorlist_returns [OF m(1)] obtain r where "res = Inr r" by blast
  with m keep [of r]
  show "\<exists>r. monitorlist ops p = Some (Inr r) \<and> error_flag r \<and> kernel r = kernel p"
    by (simp add: follows_result_def)
  from circuit_total [OF wf, of ops] obtain res where
    c: "circuit ops p = Some res" "follows_result p res" by blast
  show "\<exists>r. circuit ops p = Some (Inr r) \<and> error_flag r \<and> kernel r = kernel p"
  proof (cases res)
    case (Inl x)
    with c(1) circuit_raises [of ops p x, OF _ wf] e show ?thesis by simp
  next
    case (Inr r)
    with c keep [of r] show ?thesis by (simp add: follows_result_def)
  qed
  from parse_network_total [OF wf, of ops] obtain res where
    r: "parse_network ops p = Some res" and
    c: "case res of Inl e \<Rightarrow> True
      | Inr (b, r) \<Rightarrow> follows p r \<and> b = (\<not> error_flag r) \<and>
          (\<exists>msg. error_msg r = msg @ [newline, newline] @ ''Error Count: '' @ str (error_count r)) \<and>
          (\<exists>out. stdout r = out @ [''Error Count: '' @ str (error_count r)])"
    by blast
  show "\<exists>r. parse_network ops p = Some (Inr (False, r)) \<and> error_flag r \<and> kernel r = kernel p"
  proof (cases res)
    case (Inl x)
    with r parse_network_raises [of ops p x, OF _ wf] e show ?thesis by simp
  next
    case (Inr x)
    obtain b r' where x: "x = (b, r')" by (cases x)
    with c Inr have "follows p r'" "b = (\<not> error_flag r')" by simp_all
    with keep [of r'] r Inr x show ?thesis by simp
  qed
qed

theorem no_kernel_call_after_error_witness:
  "(let p0 = parser_on ''A=NOT;B=NOT;''; p1 = error ''x'' None p0
    in kernel (device recording_ops p0) = [Make_gate 14 NOT_gate (Some 1)] \<and>
       error_flag p1 \<and> wf_symbol (symbol p1) \<and> kernel p1 = [] \<and>
       kernel (device recording_ops p1) = [] \<and>
       kernel (device recording_ops (device recording_ops p1)) = [] \<and>
       type (symbol (device recording_ops (device recording_ops p1))) = EOF \<and>
       error_count (device recording_ops (device recording_ops p1)) = 1) \<and>
   kernel (device recording_ops (error ''x'' None (parser_on ''A=NOT;B=NOT;''))) =
     kernel (error ''x'' None (parser_on ''A=NOT;B=NOT;'')) \<and>
   (\<exists>r. parse_network recording_ops (error ''x'' None (parser_on ''A=NOT;B=NOT;'')) =
          Some (Inr (False, r)) \<and>
        error_flag r \<and> kernel r = kernel (error ''x'' None (parser_on ''A=NOT;B=NOT;'')))"
proof -
  let ?p1 = "error ''x'' None (parser_on ''A=NOT;B=NOT;'')"
  have e: "(let p0 = parser_on ''A=NOT;B=NOT;''; p1 = error ''x'' None p0
    in kernel (device recording_ops p0) = [Make_gate 14 NOT_gate (Some 1)] \<and>
       error_flag p1 \<and> wf_symbol (symbol p1) \<and> kernel p1 = [] \<and>
       kernel (device recording_ops p1) = [] \<and>
       kernel (device recording_ops (device recording_ops p1)) = [] \<and>
       type (symbol (device recording_ops (device recording_ops p1))) = EOF \<and>
       error_count (device recording_ops (device recording_ops p1)) = 1)"
    by code_simp
  have f: "error_flag ?p1" by simp
  have wf: "wf_symbol (symbol ?p1)" by code_simp
  note t = no_kernel_call_after_error [of "''x''" None "symbol ?p1" ?p1 ?p1 undefined
      recording_ops None, THEN conjunct2, THEN mp, OF f]
  from t have k: "kernel (device recording_ops ?p1) = kernel ?p1" by blast
  from t wf have n: "\<exists>r. parse_network recording_ops ?p1 = Some (Inr (False, r)) \<and>
        error_flag r \<and> kernel r = kernel ?p1" by blast
  from e k n show ?thesis by (intro conjI)
qed

text \<open>\<^verbatim>\<open>__switch\<close> looks at the ID of the parameter symbol only, never at its type: whatever
  symbol has ID 0 or 1 (a name or a keyword, by its place in the name table) is taken as
  the state.\<close>

lemma switch_takes_any_symbol:
  "type (symbol p) = PARENTHESIS_LEFT \<Longrightarrow> \<not> error_flag p \<Longrightarrow>
   symbol_id (symbol (next_symbol p)) = Some 0 \<or> symbol_id (symbol (next_symbol p)) = Some 1 \<Longrightarrow>
   type (symbol (next_symbol (next_symbol p))) = PARENTHESIS_RIGHT \<Longrightarrow>
   \<not> error_flag (switch p) \<and> error_count (switch p) = error_count p \<and>
   cur_attribute (switch p) = symbol_id (symbol (next_symbol p))"
proof -
  assume a: "type (symbol p) = PARENTHESIS_LEFT" "\<not> error_flag p"
    "symbol_id (symbol (next_symbol p)) = Some 0 \<or> symbol_id (symbol (next_symbol p)) = Some 1"
    "type (symbol (next_symbol (next_symbol p))) = PARENTHESIS_RIGHT"
  let ?p2 = "(next_symbol p)\<lparr>cur_attribute := symbol_id (symbol (next_symbol p))\<rparr>"
  have n: "next_symbol (q\<lparr>cur_attribute := v\<rparr>) = (next_symbol q)\<lparr>cur_attribute := v\<rparr>"
    for q :: "'a parser" and v
    by (simp add: next_symbol_def split_beta)
  have c: "(symbol_id (symbol (next_symbol p)) = Some 0 \<or>
            symbol_id (symbol (next_symbol p)) = Some 1) = True"
    using a(3) by simp
  have t: "type (symbol (next_symbol ?p2)) = PARENTHESIS_RIGHT"
    using a(4) by (simp add: n)
  have e: "\<not> error_flag (next_symbol p)" using a(2) by simp
  have "switch p = next_symbol (next_symbol ?p2)"
    unfolding switch_def Let_def c using a(1) e t by simp
  then show ?thesis using a(2) by (simp add: n)
qed

text \<open>
  Claim C2 (the parameter of SWITCH), at the failing input: the clause
  \<^verbatim>\<open>A=SWITCH(CIRCUIT);\<close> on a fresh name table, where the keyword \<^verbatim>\<open>CIRCUIT\<close> has ID 0. The
  parameter symbol is that keyword, no error is reported, and the switch \<^verbatim>\<open>A\<close> (ID 14) is
  made with state 0.
\<close>

theorem switch_accepts_keyword:
  "(let p0 = parser_on ''A=SWITCH(CIRCUIT);'';
        parameter = symbol (next_symbol (next_symbol (next_symbol (next_symbol p0))));
        p = device recording_ops p0
    in type parameter = KEYWORD \<and> string parameter = ''CIRCUIT'' \<and> symbol_id parameter = Some 0 \<and>
       \<not> error_flag p \<and> error_count p = 0 \<and> error_msg p = [] \<and>
       kernel p = [Make_switch 14 (Some 0)] \<and> type (symbol p) = EOF)"
  by code_simp

text \<open>
  Claim C3 (the parameter of AND), as stated, fails for \<^verbatim>\<open>AND(0)\<close>: the scanner returns the
  digit 0 as the ZERO symbol, not a NUMBER, and the one error reported for the clause
  \<^verbatim>\<open>A=AND(0);\<close> is \<^verbatim>\<open>Expected number of inputs for AND gate (valid range: 1-16)\<close>; the
  error text does not end with \<^verbatim>\<open>Number of inputs must be between 1-16\<close>.
\<close>

theorem And_zero_counterexample:
  "(let p0 = parser_on ''A=AND(0);'';
        parameter = symbol (next_symbol (next_symbol (next_symbol (next_symbol p0))));
        p = device recording_ops p0;
        claimed = ''Number of inputs must be between 1-16''
    in type parameter = ZERO \<and> error_count p = 1 \<and>
       error_msg p = [newline, newline] @ ''Error on line 1:'' @ [newline, newline]
         @ ''A=AND(0);'' @ [newline] @ ''      ^'' @ [newline, newline]
         @ ''Expected number of inputs for AND gate (valid range: 1-16)'' \<and>
       drop (length (error_msg p) - length claimed) (error_msg p) \<noteq> claimed)"
  by code_simp

text \<open>
  Claim C3, amended. In an AND-gate clause, after the opening parenthesis: when the
  parameter is a NUMBER symbol whose value is outside 1..16 (as for \<^verbatim>\<open>AND(17)\<close>), the parser
  reports one error, \<^verbatim>\<open>Number of inputs must be between 1-16\<close>, at that symbol; when the
  parameter is the ZERO symbol (\<^verbatim>\<open>AND(0)\<close>), it reports one error,
  \<^verbatim>\<open>Expected number of inputs for AND gate (valid range: 1-16)\<close>, at that symbol.
\<close>

theorem And_parameter_errors:
  "type (symbol p) = PARENTHESIS_LEFT \<Longrightarrow>
   (let p1 = next_symbol p; num = py_int (string (symbol p1)) in
      (type (symbol p1) = NUMBER \<and> \<not> (0 < num \<and> num \<le> 16) \<longrightarrow>
         error_count (And p) = error_count p + 1 \<and>
         error_msg (And p) = error_msg p @ [newline, newline] @
           fst (print_error (scanner p1) (symbol p1) ''Number of inputs must be between 1-16'')) \<and>
      (type (symbol p1) = ZERO \<longrightarrow>
         error_count (And p) = error_count p + 1 \<and>
         error_msg (And p) = error_msg p @ [newline, newline] @
           fst (print_error (scanner p1) (symbol p1)
                  ''Expected number of inputs for AND gate (valid range: 1-16)'')))"
  by (simp add: And_def gate_inputs_def close_parenthesis_def Let_def)

theorem And_parameter_errors_witness:
  "(let p = parser_on ''(17);''; p1 = next_symbol p in
      type (symbol p) = PARENTHESIS_LEFT \<and> type (symbol p1) = NUMBER \<and>
      py_int (string (symbol p1)) = 17 \<and> error_count (And p) = 1 \<and>
      error_msg (And p) = [newline, newline] @ ''Error on line 1:'' @ [newline, newline]
         @ ''(17);'' @ [newline] @ '' ^'' @ [newline, newline]
         @ ''Number of inputs must be between 1-16'') \<and>
   error_count (And (parser_on ''(17);'')) = error_count (parser_on ''(17);'') + 1"
proof -
  let ?p = "parser_on ''(17);''"
  have e: "(let p = ?p; p1 = next_symbol p in
      type (symbol p) = PARENTHESIS_LEFT \<and> type (symbol p1) = NUMBER \<and>
      py_int (string (symbol p1)) = 17 \<and> error_count (And p) = 1 \<and>
      error_msg (And p) = [newline, newline] @ ''Error on line 1:'' @ [newline, newline]
         @ ''(17);'' @ [newline] @ '' ^'' @ [newline, newline]
         @ ''Number of inputs must be between 1-16'')"
    by code_simp
  then have h: "type (symbol ?p) = PARENTHESIS_LEFT"
    and n: "type (symbol (next_symbol ?p)) = NUMBER \<and>
      \<not> (0 < py_int (string (symbol (next_symbol ?p))) \<and>
        py_int (string (symbol (next_symbol ?p))) \<le> 16)"
    unfolding Let_def by simp_all
  from And_parameter_errors [OF h, unfolded Let_def, THEN conjunct1, THEN mp, OF n]
  have "error_count (And ?p) = error_count ?p + 1" by (rule conjunct1)
  with e show ?thesis by (rule conjI)
qed

end
